theory Spec2Isabelle
  imports Main "HOL-Library.Word"
begin

unbundle bit_operations_syntax

section \<open>JavaScript numbers\<close>

text \<open>
  The documents and images handled by the tool carry integers.  The code itself
  introduces \<^verbatim>\<open>Infinity\<close> and \<^verbatim>\<open>-Infinity\<close> (loop sentinels in
  \<^verbatim>\<open>computeBounds\<close> and in the tolerance search of the recolourer), so values
  that may hold such a sentinel are of type \<open>number\<close>: an integer, one of the two
  infinities, or \<^verbatim>\<open>NaN\<close> (what the difference of equal infinities yields).
  Comparisons with \<^verbatim>\<open>NaN\<close> are false, as in JavaScript.
\<close>

datatype number = Fin int | PosInf | NegInf | NaN

fun num_lt :: "number \<Rightarrow> number \<Rightarrow> bool" where
  "num_lt (Fin x) (Fin y) = (x < y)"
| "num_lt (Fin x) PosInf = True"
| "num_lt NegInf (Fin y) = True"
| "num_lt NegInf PosInf = True"
| "num_lt _ _ = False"

fun num_le :: "number \<Rightarrow> number \<Rightarrow> bool" where
  "num_le (Fin x) (Fin y) = (x \<le> y)"
| "num_le (Fin x) PosInf = True"
| "num_le NegInf (Fin y) = True"
| "num_le NegInf PosInf = True"
| "num_le PosInf PosInf = True"
| "num_le NegInf NegInf = True"
| "num_le _ _ = False"

section \<open>Colour tools (\<^verbatim>\<open>src/utils/colorTools.ts\<close>)\<close>

subsection \<open>Colours, palette changes, pixel buffers\<close>

record Color =
  c_r :: int
  c_g :: int
  c_b :: int
  c_a :: int

text \<open>The fields \<^verbatim>\<open>from\<close> and \<^verbatim>\<open>to\<close> of a \<^verbatim>\<open>PaletteChange\<close>.\<close>

record PaletteChange =
  cfrom :: Color
  cto :: Color

text \<open>
  An element of a \<^verbatim>\<open>Uint8ClampedArray\<close> is a byte.  Reading it gives an integer
  in \<open>0..255\<close>; a write clamps the written integer into that range.
\<close>

type_synonym byte = "8 word"

definition clamp8 :: "int \<Rightarrow> byte" where
  "clamp8 v = word_of_int (max 0 (min 255 v))"

text \<open>
  \<^verbatim>\<open>colorToKey\<close> renders the four channels in decimal, separated by commas.  That
  string determines the four integers, and the code only ever compares keys for
  equality, so the key is modelled as the tuple of the channels.
\<close>

definition colorToKey :: "Color \<Rightarrow> int \<times> int \<times> int \<times> int" where
  "colorToKey c = (c_r c, c_g c, c_b c, c_a c)"

definition colorDistanceSq :: "Color \<Rightarrow> Color \<Rightarrow> int" where
  "colorDistanceSq c1 c2 =
     (let dr = c_r c1 - c_r c2;
          dg = c_g c1 - c_g c2;
          db = c_b c1 - c_b c2;
          da = c_a c1 - c_a c2
      in dr * dr + dg * dg + db * db + da * da)"

text \<open>\<^verbatim>\<open>Array.prototype.indexOf\<close>: the first index holding the value, or \<open>-1\<close>.\<close>

fun indexOf :: "'a list \<Rightarrow> 'a \<Rightarrow> int" where
  "indexOf [] k = -1"
| "indexOf (x # xs) k =
     (if x = k then 0 else (let i = indexOf xs k in if i = -1 then -1 else i + 1))"

subsection \<open>\<^verbatim>\<open>applyColorMappingsToImageData\<close>\<close>

text \<open>
  The inner loop of tolerance mode: \<open>j\<close> runs over the changes, \<open>bestIdx\<close> starts
  at \<open>-1\<close> and \<open>bestDist\<close> at \<^verbatim>\<open>Infinity\<close>; a change replaces the best one
  only when it is strictly nearer.
\<close>

fun nearest :: "Color \<Rightarrow> PaletteChange list \<Rightarrow> int \<Rightarrow> int \<times> number \<Rightarrow> int \<times> number" where
  "nearest p [] j (bestIdx, bestDist) = (bestIdx, bestDist)"
| "nearest p (c # cs) j (bestIdx, bestDist) =
     (let dist = colorDistanceSq p (cfrom c) in
      if num_lt (Fin dist) bestDist
      then nearest p cs (j + 1) (j, Fin dist)
      else nearest p cs (j + 1) (bestIdx, bestDist))"

text \<open>The value of \<^verbatim>\<open>replacement\<close> for one non-transparent pixel (\<open>None\<close> is \<^verbatim>\<open>null\<close>).\<close>

definition findReplacement :: "PaletteChange list \<Rightarrow> bool \<Rightarrow> int \<Rightarrow> Color \<Rightarrow> Color option" where
  "findReplacement changes useTolerance toleranceSq pixelColor =
     (if useTolerance then
        (case nearest pixelColor changes 0 (-1, PosInf) of
           (bestIdx, bestDist) \<Rightarrow>
             if 0 \<le> bestIdx \<and> num_le bestDist (Fin toleranceSq)
             then Some (cto (changes ! nat bestIdx)) else None)
      else
        (let key = colorToKey pixelColor;
             idx = indexOf (map (\<lambda>c. colorToKey (cfrom c)) changes) key
         in if idx \<noteq> -1 then Some (cto (changes ! nat idx)) else None))"

text \<open>
  The pixel loop \<^verbatim>\<open>for (i = 0; i < data.length; i += 4)\<close> over the copied buffer.
  Each round reads four bytes and writes the same four, so the loop is a recursion
  over the buffer in groups of four.  A buffer of an \<^verbatim>\<open>ImageData\<close> has a length
  that is a multiple of four; were fewer than four bytes left, the alpha read would be
  \<^verbatim>\<open>undefined\<close>, no change would match and nothing would be written, which is the
  last equation.
\<close>

fun recolorLoop :: "PaletteChange list \<Rightarrow> bool \<Rightarrow> int \<Rightarrow> byte list \<Rightarrow> byte list" where
  "recolorLoop changes useTolerance toleranceSq (r # g # b # a # rest) =
     (if a = 0 then r # g # b # a # recolorLoop changes useTolerance toleranceSq rest
      else
        (case findReplacement changes useTolerance toleranceSq
                \<lparr>c_r = uint r, c_g = uint g, c_b = uint b, c_a = uint a\<rparr> of
           None \<Rightarrow> r # g # b # a # recolorLoop changes useTolerance toleranceSq rest
         | Some replacement \<Rightarrow>
             clamp8 (c_r replacement) # clamp8 (c_g replacement) #
             clamp8 (c_b replacement) # clamp8 (c_a replacement) #
             recolorLoop changes useTolerance toleranceSq rest))"
| "recolorLoop changes useTolerance toleranceSq rest = rest"

text \<open>
  Buffers live in a store: \<open>bufs\<close> gives the contents at an address, and every
  address below \<open>next_addr\<close> is allocated.  An \<^verbatim>\<open>ImageData\<close> refers to its
  buffer by address, so that two images may or may not share one.
\<close>

type_synonym addr = nat

record store =
  bufs :: "addr \<Rightarrow> byte list"
  next_addr :: addr

record ImageData =
  img_data :: addr
  img_width :: int
  img_height :: int

text \<open>\<^verbatim>\<open>new Uint8ClampedArray(src)\<close>: a fresh buffer holding a copy of the bytes.\<close>

definition newUint8ClampedArray :: "byte list \<Rightarrow> store \<Rightarrow> addr \<times> store" where
  "newUint8ClampedArray bytes s =
     (next_addr s, s\<lparr>bufs := (bufs s)(next_addr s := bytes), next_addr := Suc (next_addr s)\<rparr>)"

definition applyColorMappingsToImageData ::
  "store \<Rightarrow> ImageData \<Rightarrow> PaletteChange list \<Rightarrow> bool \<Rightarrow> int \<Rightarrow> store \<times> ImageData" where
  "applyColorMappingsToImageData s baseImageData changes useTolerance toleranceSq =
     (case newUint8ClampedArray (bufs s (img_data baseImageData)) s of
        (p, s1) \<Rightarrow>
          (let out = \<lparr>img_data = p, img_width = img_width baseImageData,
                      img_height = img_height baseImageData\<rparr>;
               s2 = s1\<lparr>bufs := (bufs s1)(p := recolorLoop changes useTolerance toleranceSq (bufs s1 p))\<rparr>
           in (s2, out)))"

subsection \<open>Reading pixels\<close>


text \<open>A colour of the data model: four integers in \<open>0..255\<close>.\<close>

definition valid_color :: "Color \<Rightarrow> bool" where
  "valid_color c =
     (0 \<le> c_r c \<and> c_r c \<le> 255 \<and> 0 \<le> c_g c \<and> c_g c \<le> 255 \<and>
      0 \<le> c_b c \<and> c_b c \<le> 255 \<and> 0 \<le> c_a c \<and> c_a c \<le> 255)"

text \<open>What the loop stores for a pixel that it replaces by the colour \<open>c\<close>.\<close>

definition clampColor :: "Color \<Rightarrow> Color" where
  "clampColor c =
     \<lparr>c_r = uint (clamp8 (c_r c)), c_g = uint (clamp8 (c_g c)),
      c_b = uint (clamp8 (c_b c)), c_a = uint (clamp8 (c_a c))\<rparr>"



text \<open>
  \<open>first_min d n j\<close>: among the indices below \<open>n\<close>, \<open>j\<close> is the earliest one at
  which \<open>d\<close> is least.
\<close>

definition first_min :: "(nat \<Rightarrow> int) \<Rightarrow> nat \<Rightarrow> nat \<Rightarrow> bool" where
  "first_min d n j = (j < n \<and> (\<forall>i<n. d j \<le> d i) \<and> (\<forall>i<j. d j < d i))"

subsection \<open>A small image for the examples\<close>

definition red :: Color where
  "red = \<lparr>c_r = 255, c_g = 0, c_b = 0, c_a = 255\<rparr>"

definition green :: Color where
  "green = \<lparr>c_r = 0, c_g = 255, c_b = 0, c_a = 255\<rparr>"

definition store0 :: store where
  "store0 = \<lparr>bufs = (\<lambda>_. [])(0 := [255, 0, 0, 255, 0, 0, 0, 0, 250, 0, 0, 255, 0, 0, 255, 255]),
             next_addr = 1\<rparr>"

definition image0 :: ImageData where
  "image0 = \<lparr>img_data = 0, img_width = 2, img_height = 2\<rparr>"

subsection \<open>\<^verbatim>\<open>extractDominantColors\<close>\<close>

text \<open>\<^verbatim>\<open>data[i]\<close> on a byte buffer: an integer in \<open>0..255\<close>, or \<^verbatim>\<open>undefined\<close> out of range.\<close>

definition readByte :: "byte list \<Rightarrow> int \<Rightarrow> int option" where
  "readByte bytes i = (if 0 \<le> i \<and> i < int (length bytes) then Some (uint (bytes ! nat i)) else None)"

text \<open>
  \<^verbatim>\<open>(v >> 4) & 0x0f\<close>; the shift turns \<^verbatim>\<open>undefined\<close> into \<open>0\<close>.  The key of
  \<^verbatim>\<open>quantizeColor\<close> is the decimal text of the four results separated by commas, which
  \<^verbatim>\<open>dequantizeColor\<close> splits and parses again; it is modelled as their tuple.
\<close>

definition quantizeChannel :: "int option \<Rightarrow> int" where
  "quantizeChannel v = (case v of None \<Rightarrow> 0 | Some n \<Rightarrow> drop_bit 4 n AND 15)"

type_synonym bucket = "int \<times> int \<times> int \<times> int"

definition quantizeColor :: "int option \<Rightarrow> int option \<Rightarrow> int option \<Rightarrow> int option \<Rightarrow> bucket" where
  "quantizeColor r g b a = (quantizeChannel r, quantizeChannel g, quantizeChannel b, quantizeChannel a)"

definition expand :: "int \<Rightarrow> int" where
  "expand v = push_bit 4 v OR (v AND 15)"

definition dequantizeColor :: "bucket \<Rightarrow> Color" where
  "dequantizeColor key =
     (case key of (qr, qg, qb, qa) \<Rightarrow>
        \<lparr>c_r = expand qr, c_g = expand qg, c_b = expand qb, c_a = expand qa\<rparr>)"

text \<open>
  \<^verbatim>\<open>counts\<close> is an object used as a dictionary from keys to numbers.  Its entries are
  listed in the order in which the keys were first set (no key is the text of an array
  index), so it is an association list in that order.
  \<^verbatim>\<open>counts[key] = (counts[key] || 0) + 1\<close>:
\<close>

fun bump :: "('k \<times> int) list \<Rightarrow> 'k \<Rightarrow> ('k \<times> int) list" where
  "bump [] key = [(key, 1)]"
| "bump ((k, n) # entries) key =
     (if k = key then (k, n + 1) # entries else (k, n) # bump entries key)"

text \<open>The body of the inner loop, at the pixel \<open>(x, y)\<close>.\<close>

definition countPixel :: "byte list \<Rightarrow> int \<Rightarrow> int \<Rightarrow> int \<Rightarrow> (bucket \<times> int) list \<Rightarrow> (bucket \<times> int) list" where
  "countPixel bytes width y x counts =
     (let idx = (y * width + x) * 4;
          r = readByte bytes idx;
          g = readByte bytes (idx + 1);
          b = readByte bytes (idx + 2);
          a = readByte bytes (idx + 3)
      in if a = Some 0 then counts else bump counts (quantizeColor r g b a))"

text \<open>
  The two loops.  They step by \<open>sampleStep\<close> and so need not end (a step of \<open>0\<close>, or
  a negative one); \<open>None\<close> is the loop that does not return.
\<close>

partial_function (option) scanRow ::
  "byte list \<Rightarrow> int \<Rightarrow> int \<Rightarrow> int \<Rightarrow> int \<Rightarrow> (bucket \<times> int) list \<Rightarrow> (bucket \<times> int) list option" where
  "scanRow bytes width sampleStep y x counts =
     (if x < width
      then scanRow bytes width sampleStep y (x + sampleStep) (countPixel bytes width y x counts)
      else Some counts)"

partial_function (option) scanRows ::
  "byte list \<Rightarrow> int \<Rightarrow> int \<Rightarrow> int \<Rightarrow> int \<Rightarrow> (bucket \<times> int) list \<Rightarrow> (bucket \<times> int) list option" where
  "scanRows bytes width height sampleStep y counts =
     (if y < height
      then Option.bind (scanRow bytes width sampleStep y 0 counts)
             (scanRows bytes width height sampleStep (y + sampleStep))
      else Some counts)"

text \<open>
  \<^verbatim>\<open>xs.slice(0, end)\<close>: the first \<open>end\<close> elements, or all but the last \<open>- end\<close> for a
  negative \<open>end\<close>.
\<close>

definition slice0 :: "'a list \<Rightarrow> int \<Rightarrow> 'a list" where
  "slice0 xs stop = (if stop < 0 then take (nat (int (length xs) + stop)) xs else take (nat stop) xs)"

text \<open>
  \<^verbatim>\<open>entries.sort((a, b) => b[1] - a[1])\<close> is a stable sort by falling count, which
  is what \<open>sort_key\<close> does with the negated count as the key.
\<close>

definition extractDominantColors :: "store \<Rightarrow> ImageData \<Rightarrow> int \<Rightarrow> int \<Rightarrow> Color list option" where
  "extractDominantColors s imageData maxColors sampleStep =
     (case scanRows (bufs s (img_data imageData)) (img_width imageData) (img_height imageData)
             sampleStep 0 [] of
        None \<Rightarrow> None
      | Some counts \<Rightarrow>
          (let entries = sort_key (\<lambda>e. - snd e) counts;
               topKeys = map fst (slice0 entries maxColors)
           in Some (map dequantizeColor topKeys)))"

subsection \<open>Notions for stating the properties of \<^verbatim>\<open>extractDominantColors\<close>\<close>

text \<open>The values \<open>x, x + step, x + 2 step, ...\<close> below \<open>n\<close>, for a positive step.\<close>

function stepsFrom :: "int \<Rightarrow> int \<Rightarrow> int \<Rightarrow> int list" where
  "stepsFrom x n step = (if x < n \<and> 0 < step then x # stepsFrom (x + step) n step else [])"
  by pat_completeness auto
termination
  by (relation "measure (\<lambda>(x, n, step). nat (n - x))") auto

declare stepsFrom.simps [simp del]

text \<open>The sampled pixels \<open>(x, y)\<close>, row by row.\<close>

definition samplePoints :: "int \<Rightarrow> int \<Rightarrow> int \<Rightarrow> (int \<times> int) list" where
  "samplePoints width height step =
     concat (map (\<lambda>y. map (\<lambda>x. (x, y)) (stepsFrom 0 width step)) (stepsFrom 0 height step))"

text \<open>The four channels read at a pixel, and whether the pixel is fully transparent.\<close>

definition pixelRead :: "byte list \<Rightarrow> int \<Rightarrow> int \<times> int \<Rightarrow> int option \<times> int option \<times> int option \<times> int option" where
  "pixelRead bytes width p =
     (case p of (x, y) \<Rightarrow>
        (readByte bytes ((y * width + x) * 4), readByte bytes ((y * width + x) * 4 + 1),
         readByte bytes ((y * width + x) * 4 + 2), readByte bytes ((y * width + x) * 4 + 3)))"

definition transparent :: "int option \<times> int option \<times> int option \<times> int option \<Rightarrow> bool" where
  "transparent px = (case px of (r, g, b, a) \<Rightarrow> a = Some 0)"

text \<open>The buckets of the sampled pixels that are not fully transparent, in scan order.\<close>

definition sampledBuckets :: "byte list \<Rightarrow> int \<Rightarrow> int \<Rightarrow> int \<Rightarrow> bucket list" where
  "sampledBuckets bytes width height step =
     map (\<lambda>px. case px of (r, g, b, a) \<Rightarrow> quantizeColor r g b a)
       (filter (\<lambda>px. \<not> transparent px) (map (pixelRead bytes width) (samplePoints width height step)))"

text \<open>
  The ranking order: an entry comes before another when its count is greater, or the
  counts are equal and its bucket occurs first in the scan.
\<close>

definition ranksBefore :: "bucket list \<Rightarrow> bucket \<times> int \<Rightarrow> bucket \<times> int \<Rightarrow> bool" where
  "ranksBefore ks e1 e2 =
     (snd e2 < snd e1 \<or> (snd e1 = snd e2 \<and> indexOf ks (fst e1) < indexOf ks (fst e2)))"

text \<open>The ranking of the buckets of a scan: their counts, sorted as the code sorts them.\<close>

definition rankBuckets :: "bucket list \<Rightarrow> (bucket \<times> int) list" where
  "rankBuckets ks = sort_key (\<lambda>e. - snd e) (foldl bump [] ks)"

section \<open>Map merge (\<^verbatim>\<open>src/utils/tmjMerge.ts\<close>)\<close>

subsection \<open>Arithmetic on numbers\<close>

text \<open>\<^verbatim>\<open>Math.min\<close> and \<^verbatim>\<open>Math.max\<close> of two numbers, and \<open>-\<close>, \<open>+\<close>, \<open>*\<close>.\<close>

fun num_min :: "number \<Rightarrow> number \<Rightarrow> number" where
  "num_min NaN _ = NaN"
| "num_min _ NaN = NaN"
| "num_min NegInf _ = NegInf"
| "num_min _ NegInf = NegInf"
| "num_min PosInf y = y"
| "num_min x PosInf = x"
| "num_min (Fin x) (Fin y) = Fin (min x y)"

fun num_max :: "number \<Rightarrow> number \<Rightarrow> number" where
  "num_max NaN _ = NaN"
| "num_max _ NaN = NaN"
| "num_max PosInf _ = PosInf"
| "num_max _ PosInf = PosInf"
| "num_max NegInf y = y"
| "num_max x NegInf = x"
| "num_max (Fin x) (Fin y) = Fin (max x y)"

fun num_neg :: "number \<Rightarrow> number" where
  "num_neg (Fin x) = Fin (- x)"
| "num_neg PosInf = NegInf"
| "num_neg NegInf = PosInf"
| "num_neg NaN = NaN"

fun num_add :: "number \<Rightarrow> number \<Rightarrow> number" where
  "num_add NaN _ = NaN"
| "num_add _ NaN = NaN"
| "num_add (Fin x) (Fin y) = Fin (x + y)"
| "num_add PosInf NegInf = NaN"
| "num_add NegInf PosInf = NaN"
| "num_add PosInf _ = PosInf"
| "num_add NegInf _ = NegInf"
| "num_add _ PosInf = PosInf"
| "num_add _ NegInf = NegInf"

definition num_sub :: "number \<Rightarrow> number \<Rightarrow> number" where
  "num_sub x y = num_add x (num_neg y)"

fun num_sgn :: "number \<Rightarrow> int" where
  "num_sgn (Fin x) = sgn x"
| "num_sgn PosInf = 1"
| "num_sgn NegInf = -1"
| "num_sgn NaN = 0"

fun num_mul :: "number \<Rightarrow> number \<Rightarrow> number" where
  "num_mul NaN _ = NaN"
| "num_mul _ NaN = NaN"
| "num_mul (Fin x) (Fin y) = Fin (x * y)"
| "num_mul x y =
     (if num_sgn x * num_sgn y = 0 then NaN
      else if 0 < num_sgn x * num_sgn y then PosInf else NegInf)"

subsection \<open>The documents\<close>

text \<open>
  What a thrown value is: \<^verbatim>\<open>new Error(message)\<close>, the \<^verbatim>\<open>RangeError\<close> of
  \<^verbatim>\<open>new Array(n)\<close> for an \<open>n\<close> that is no array length, and the
  \<^verbatim>\<open>TypeError\<close> of indexing \<^verbatim>\<open>undefined\<close>.
\<close>

datatype js_error = Error string | RangeError | TypeError

text \<open>
  A value the merge never looks into (\<^verbatim>\<open>any\<close> in the type declarations, and the
  fractional \<^verbatim>\<open>opacity\<close>).
\<close>

typedecl any

record RawProperty =
  prop_name :: string
  prop_type :: string
  prop_value :: any

text \<open>
  The fields of \<^verbatim>\<open>RawLayerBase\<close> but \<^verbatim>\<open>type\<close>, which is the constructor of
  \<open>RawLayer\<close> below.
\<close>

record RawLayerBase =
  l_id :: int
  l_name :: string
  l_opacity :: "any option"
  l_visible :: "bool option"
  l_x :: "int option"
  l_y :: "int option"
  l_properties :: "RawProperty list option"

record RawTileLayer = RawLayerBase +
  tl_width :: int
  tl_height :: int
  tl_data :: "int list"

text \<open>Pixel coordinates of an object are numbers: the merge adds a number to them.\<close>

record RawObject =
  o_id :: int
  o_name :: string
  o_type :: string
  o_x :: number
  o_y :: number
  o_width :: "int option"
  o_height :: "int option"
  o_rotation :: "any option"
  o_properties :: "RawProperty list option"
  o_gid :: "int option"

record RawObjectGroup = RawLayerBase +
  og_objects :: "RawObject list"

record RawImageLayer = RawLayerBase +
  il_image :: "string option"

text \<open>
  The union \<^verbatim>\<open>RawLayer\<close>, discriminated by \<^verbatim>\<open>type\<close>: \<^verbatim>\<open>"tilelayer"\<close>,
  \<^verbatim>\<open>"objectgroup"\<close>, \<^verbatim>\<open>"imagelayer"\<close> and \<^verbatim>\<open>"group"\<close> (a group holds its
  base fields and its layers).
\<close>

datatype RawLayer =
    TileLayer RawTileLayer
  | ObjectGroup RawObjectGroup
  | ImageLayer RawImageLayer
  | GroupLayer RawLayerBase "RawLayer list"

record RawTilesetRef =
  ts_firstgid :: int
  ts_source :: "string option"
  ts_name :: "string option"
  ts_tilewidth :: "int option"
  ts_tileheight :: "int option"
  ts_tilecount :: "int option"
  ts_columns :: "int option"
  ts_image :: "string option"
  ts_tiles :: "any list option"
  ts_other :: "(string \<times> any) list"

record RawTmj =
  tmj_height :: int
  tmj_width :: int
  tmj_tileheight :: int
  tmj_tilewidth :: int
  tmj_layers :: "RawLayer list"
  tmj_tilesets :: "RawTilesetRef list"
  tmj_orientation :: string
  tmj_renderorder :: string
  tmj_infinite :: "bool option"
  tmj_properties :: "RawProperty list option"
  tmj_other :: "(string \<times> any) list"

record MapChunk =
  chunk_id :: string
  tmj :: RawTmj
  offsetX :: int
  offsetY :: int

text \<open>\<^verbatim>\<open>Record<number, number>\<close>: an object used as a dictionary from GID to GID.\<close>

type_synonym GidRemap = "int \<rightharpoonup> int"

record Bounds =
  minX :: number
  minY :: number
  maxX :: number
  maxY :: number
  b_width :: number
  b_height :: number

subsection \<open>\<^verbatim>\<open>computeBounds\<close>\<close>

text \<open>The loop over the chunks, on the four running values.\<close>

fun boundsLoop ::
  "MapChunk list \<Rightarrow> number \<times> number \<times> number \<times> number \<Rightarrow> number \<times> number \<times> number \<times> number" where
  "boundsLoop [] acc = acc"
| "boundsLoop (chunk # rest) (mnX, mnY, mxX, mxY) =
     (let w = tmj_width (tmj chunk);
          h = tmj_height (tmj chunk);
          x0 = offsetX chunk;
          y0 = offsetY chunk;
          x1 = x0 + w;
          y1 = y0 + h
      in boundsLoop rest
           (num_min mnX (Fin x0), num_min mnY (Fin y0), num_max mxX (Fin x1), num_max mxY (Fin y1)))"

definition computeBounds :: "MapChunk list \<Rightarrow> Bounds" where
  "computeBounds chunks =
     (case boundsLoop chunks (PosInf, PosInf, NegInf, NegInf) of
        (mnX, mnY, mxX, mxY) \<Rightarrow>
          \<lparr>minX = mnX, minY = mnY, maxX = mxX, maxY = mxY,
           b_width = num_sub mxX mnX, b_height = num_sub mxY mnY\<rparr>)"

subsection \<open>\<^verbatim>\<open>mergeTilesets\<close>\<close>

text \<open>
  The deduplication key is the JSON text of an object with the seven fields in a
  fixed order; \<^verbatim>\<open>ts.source || null\<close> turns a missing or empty string into
  \<^verbatim>\<open>null\<close>, and a missing number leaves its field out.  The text determines the
  seven values so normalised, and keys are only compared, so the key is modelled as
  their tuple.
\<close>

definition orNull :: "string option \<Rightarrow> string option" where
  "orNull s = (case s of None \<Rightarrow> None | Some v \<Rightarrow> if v = [] then None else Some v)"

type_synonym TilesetKey =
  "string option \<times> string option \<times> string option \<times> int option \<times> int option \<times> int option \<times> int option"

definition tilesetKey :: "RawTilesetRef \<Rightarrow> TilesetKey" where
  "tilesetKey ts =
     (orNull (ts_source ts), orNull (ts_name ts), orNull (ts_image ts),
      ts_tilewidth ts, ts_tileheight ts, ts_tilecount ts, ts_columns ts)"

text \<open>\<^verbatim>\<open>ts.tilecount ?? 0\<close>.\<close>

definition tileCountOf :: "RawTilesetRef \<Rightarrow> int" where
  "tileCountOf ts = (case ts_tilecount ts of None \<Rightarrow> 0 | Some n \<Rightarrow> n)"

text \<open>The state of \<^verbatim>\<open>mergeTilesets\<close>: its four local variables.\<close>

record TilesetState =
  globalTilesets :: "RawTilesetRef list"
  gidRemaps :: "GidRemap list"
  tilesetKeyToGlobalIndex :: "TilesetKey \<rightharpoonup> nat"
  nextFirstGid :: int

text \<open>The loop \<^verbatim>\<open>for (local = 0; local < tileCount; local++)\<close> writing remap entries.\<close>

function remapLoop :: "int \<Rightarrow> int \<Rightarrow> int \<Rightarrow> int \<Rightarrow> GidRemap \<Rightarrow> GidRemap" where
  "remapLoop oldFirstGid newFirstGid tileCount local remap =
     (if local < tileCount
      then remapLoop oldFirstGid newFirstGid tileCount (local + 1)
             (remap(oldFirstGid + local \<mapsto> newFirstGid + local))
      else remap)"
  by pat_completeness auto
termination
  by (relation "measure (\<lambda>(oldFirstGid, newFirstGid, tileCount, local, remap). nat (tileCount - local))") auto

declare remapLoop.simps [simp del]

text \<open>The body of the loop over the tilesets of the chunk at \<open>mapIndex\<close>.\<close>

definition tilesetStep :: "nat \<Rightarrow> TilesetState \<Rightarrow> RawTilesetRef \<Rightarrow> TilesetState" where
  "tilesetStep mapIndex st ts =
     (let key = tilesetKey ts;
          (globalIndex, st1) =
            (case tilesetKeyToGlobalIndex st key of
               None \<Rightarrow>
                 (let newTs = ts\<lparr>ts_firstgid := nextFirstGid st\<rparr>;
                      gi = length (globalTilesets st)
                  in (gi, st\<lparr>globalTilesets := globalTilesets st @ [newTs],
                             tilesetKeyToGlobalIndex := (tilesetKeyToGlobalIndex st)(key \<mapsto> gi),
                             nextFirstGid := nextFirstGid st + tileCountOf ts\<rparr>))
             | Some gi \<Rightarrow> (gi, st));
          globalTs = globalTilesets st1 ! globalIndex;
          oldFirstGid = ts_firstgid ts;
          newFirstGid = ts_firstgid globalTs;
          tileCount = tileCountOf ts
      in st1\<lparr>gidRemaps := (gidRemaps st1)
                [mapIndex := remapLoop oldFirstGid newFirstGid tileCount 0 (gidRemaps st1 ! mapIndex)]\<rparr>)"

text \<open>\<^verbatim>\<open>chunks.forEach((chunk, mapIndex) => ...)\<close>.\<close>

fun tilesetChunkLoop :: "MapChunk list \<Rightarrow> nat \<Rightarrow> TilesetState \<Rightarrow> TilesetState" where
  "tilesetChunkLoop [] mapIndex st = st"
| "tilesetChunkLoop (chunk # rest) mapIndex st =
     tilesetChunkLoop rest (Suc mapIndex) (foldl (tilesetStep mapIndex) st (tmj_tilesets (tmj chunk)))"

definition mergeTilesets :: "MapChunk list \<Rightarrow> RawTilesetRef list \<times> GidRemap list" where
  "mergeTilesets chunks =
     (let st = tilesetChunkLoop chunks 0
                 \<lparr>globalTilesets = [], gidRemaps = map (\<lambda>_. Map.empty) chunks,
                  tilesetKeyToGlobalIndex = Map.empty, nextFirstGid = 1\<rparr>
      in (globalTilesets st, gidRemaps st))"

subsection \<open>\<^verbatim>\<open>mergeTileLayers\<close>\<close>

text \<open>\<^verbatim>\<open>xs[i]\<close> for an index that may be out of range: \<open>None\<close> is \<^verbatim>\<open>undefined\<close>.\<close>

definition nth_opt :: "'a list \<Rightarrow> nat \<Rightarrow> 'a option" where
  "nth_opt xs i = (if i < length xs then Some (xs ! i) else None)"

text \<open>\<^verbatim>\<open>src.data[srcIndex] || 0\<close>: a missing cell reads as \<open>0\<close>.\<close>

definition readCell :: "int list \<Rightarrow> int \<Rightarrow> int" where
  "readCell cells i = (if 0 \<le> i \<and> i < int (length cells) then cells ! nat i else 0)"

text \<open>
  \<^verbatim>\<open>new Array(n).fill(0)\<close>: a \<^verbatim>\<open>RangeError\<close> unless \<open>n\<close> is an integer in
  \<open>0..2^32 - 1\<close>.
\<close>

definition newArray :: "number \<Rightarrow> js_error + int list" where
  "newArray n =
     (case n of
        Fin k \<Rightarrow> if 0 \<le> k \<and> k < 2 ^ 32 then Inr (replicate (nat k) 0) else Inl RangeError
      | _ \<Rightarrow> Inl RangeError)"

text \<open>
  \<^verbatim>\<open>dest.data[destIndex] = newGid\<close>.  An index of the array sets that element.
  \<^verbatim>\<open>NaN\<close> and the infinities are no indices: the assignment then sets a property
  and leaves every element as it is.  An integer outside the array is never written
  by \<^verbatim>\<open>mergeTileLayers\<close>, whose bounds test comes first; the equation leaves the
  elements as they are there too.
\<close>

definition arrayWrite :: "int list \<Rightarrow> number \<Rightarrow> int \<Rightarrow> int list" where
  "arrayWrite cells i v =
     (case i of
        Fin k \<Rightarrow> if 0 \<le> k \<and> k < int (length cells) then cells[nat k := v] else cells
      | _ \<Rightarrow> cells)"

text \<open>
  The cells \<open>(localX, localY)\<close> in the order of the two nested loops: rows from
  \<open>0\<close> to \<open>height - 1\<close>, and in each row the columns from \<open>0\<close> to \<open>width - 1\<close>.
\<close>

definition cellsOf :: "int \<Rightarrow> int \<Rightarrow> (int \<times> int) list" where
  "cellsOf w h = concat (map (\<lambda>localY. map (\<lambda>localX. (localX, localY)) [0..w - 1]) [0..h - 1])"

text \<open>
  The body of the inner loop, over the cells still to visit.  \<open>remap\<close> is
  \<^verbatim>\<open>gidRemaps[idx]\<close>, which is \<^verbatim>\<open>undefined\<close> when the list is too short; then
  \<^verbatim>\<open>remap[oldGid]\<close> throws.
\<close>

fun cellLoop ::
  "RawTileLayer \<Rightarrow> Bounds \<Rightarrow> GidRemap option \<Rightarrow> number \<Rightarrow> number \<Rightarrow> (int \<times> int) list \<Rightarrow>
   int list \<Rightarrow> js_error + int list" where
  "cellLoop src bounds remap offX offY [] dest = Inr dest"
| "cellLoop src bounds remap offX offY ((localX, localY) # cells) dest =
     (let srcIndex = localY * tl_width src + localX;
          oldGid = readCell (tl_data src) srcIndex
      in if oldGid = 0 then cellLoop src bounds remap offX offY cells dest
         else
           (case remap of
              None \<Rightarrow> Inl TypeError
            | Some m \<Rightarrow>
                (let newGid = (case m oldGid of None \<Rightarrow> oldGid | Some g \<Rightarrow> g);
                     globalX = num_add offX (Fin localX);
                     globalY = num_add offY (Fin localY)
                 in if num_lt globalX (Fin 0) \<or> num_lt globalY (Fin 0) \<or>
                       num_le (b_width bounds) globalX \<or> num_le (b_height bounds) globalY
                    then cellLoop src bounds remap offX offY cells dest
                    else
                      (let destIndex = num_add (num_mul globalY (b_width bounds)) globalX
                       in cellLoop src bounds remap offX offY cells
                            (arrayWrite dest destIndex newGid)))))"

text \<open>
  One tile layer: the destination layer with the next id and the metadata of the
  source, a grid of zeros, and the cells written.  The array is allocated only for a
  product \<open>width * height\<close> that is an array length; both factors are integers then,
  and they are the destination's width and height.
\<close>

definition mergeOneTileLayer ::
  "RawTileLayer \<Rightarrow> Bounds \<Rightarrow> GidRemap option \<Rightarrow> number \<Rightarrow> number \<Rightarrow> int \<Rightarrow>
   js_error + RawTileLayer" where
  "mergeOneTileLayer src bounds remap offX offY newId =
     (case newArray (num_mul (b_width bounds) (b_height bounds)) of
        Inl e \<Rightarrow> Inl e
      | Inr zeros \<Rightarrow>
          (case (b_width bounds, b_height bounds) of
             (Fin w, Fin h) \<Rightarrow>
               (case cellLoop src bounds remap offX offY
                       (cellsOf (tl_width src) (tl_height src)) zeros of
                  Inl e \<Rightarrow> Inl e
                | Inr cells \<Rightarrow>
                    Inr (src\<lparr>l_id := newId, l_x := Some 0, l_y := Some 0,
                             tl_width := w, tl_height := h, tl_data := cells\<rparr>))
           | _ \<Rightarrow> Inl RangeError))"

text \<open>The loop over the layers of one chunk; the state is the list built and \<open>nextLayerId\<close>.\<close>

fun tileLayerLoop ::
  "Bounds \<Rightarrow> GidRemap option \<Rightarrow> number \<Rightarrow> number \<Rightarrow> RawLayer list \<Rightarrow>
   RawTileLayer list \<times> int \<Rightarrow> js_error + (RawTileLayer list \<times> int)" where
  "tileLayerLoop bounds remap offX offY [] st = Inr st"
| "tileLayerLoop bounds remap offX offY (TileLayer src # layers) (mergedLayers, nextLayerId) =
     (case mergeOneTileLayer src bounds remap offX offY nextLayerId of
        Inl e \<Rightarrow> Inl e
      | Inr dest \<Rightarrow>
          tileLayerLoop bounds remap offX offY layers (mergedLayers @ [dest], nextLayerId + 1))"
| "tileLayerLoop bounds remap offX offY (_ # layers) st =
     tileLayerLoop bounds remap offX offY layers st"

text \<open>The loop over the chunks, \<open>idx\<close> counting them.\<close>

fun tileChunkLoop ::
  "Bounds \<Rightarrow> GidRemap list \<Rightarrow> MapChunk list \<Rightarrow> nat \<Rightarrow>
   RawTileLayer list \<times> int \<Rightarrow> js_error + (RawTileLayer list \<times> int)" where
  "tileChunkLoop bounds remaps [] idx st = Inr st"
| "tileChunkLoop bounds remaps (chunk # rest) idx st =
     (let remap = nth_opt remaps idx;
          offX = num_sub (Fin (offsetX chunk)) (minX bounds);
          offY = num_sub (Fin (offsetY chunk)) (minY bounds)
      in case tileLayerLoop bounds remap offX offY (tmj_layers (tmj chunk)) st of
           Inl e \<Rightarrow> Inl e
         | Inr st' \<Rightarrow> tileChunkLoop bounds remaps rest (Suc idx) st')"

definition mergeTileLayers ::
  "MapChunk list \<Rightarrow> Bounds \<Rightarrow> GidRemap list \<Rightarrow> js_error + RawTileLayer list" where
  "mergeTileLayers chunks bounds remaps =
     (case tileChunkLoop bounds remaps chunks 0 ([], 1) of
        Inl e \<Rightarrow> Inl e
      | Inr (mergedLayers, nextLayerId) \<Rightarrow> Inr mergedLayers)"

subsection \<open>\<^verbatim>\<open>mergeObjectGroups\<close>\<close>

text \<open>The loop over the objects of a group; the state is the list built and \<open>nextObjectId\<close>.\<close>

fun objectLoop ::
  "GidRemap option \<Rightarrow> number \<Rightarrow> number \<Rightarrow> RawObject list \<Rightarrow> RawObject list \<times> int \<Rightarrow>
   js_error + (RawObject list \<times> int)" where
  "objectLoop remap offPX offPY [] st = Inr st"
| "objectLoop remap offPX offPY (obj # objs) (destObjects, nextObjectId) =
     (let newObj = obj\<lparr>o_id := nextObjectId,
                       o_x := num_add (o_x obj) offPX,
                       o_y := num_add (o_y obj) offPY\<rparr>
      in case o_gid obj of
           None \<Rightarrow> objectLoop remap offPX offPY objs (destObjects @ [newObj], nextObjectId + 1)
         | Some gid \<Rightarrow>
             (case remap of
                None \<Rightarrow> Inl TypeError
              | Some m \<Rightarrow>
                  objectLoop remap offPX offPY objs
                    (destObjects @ [newObj\<lparr>o_gid := Some (case m gid of None \<Rightarrow> gid | Some g \<Rightarrow> g)\<rparr>],
                     nextObjectId + 1)))"

text \<open>
  The loop over the layers of one chunk; the state is the list built, \<open>nextGroupId\<close>
  and \<open>nextObjectId\<close>.
\<close>

fun groupLayerLoop ::
  "GidRemap option \<Rightarrow> number \<Rightarrow> number \<Rightarrow> RawLayer list \<Rightarrow> RawObjectGroup list \<times> int \<times> int \<Rightarrow>
   js_error + (RawObjectGroup list \<times> int \<times> int)" where
  "groupLayerLoop remap offPX offPY [] st = Inr st"
| "groupLayerLoop remap offPX offPY (ObjectGroup src # layers) (mergedGroups, nextGroupId, nextObjectId) =
     (case objectLoop remap offPX offPY (og_objects src) ([], nextObjectId) of
        Inl e \<Rightarrow> Inl e
      | Inr (destObjects, nextObjectId') \<Rightarrow>
          groupLayerLoop remap offPX offPY layers
            (mergedGroups @ [src\<lparr>l_id := nextGroupId, og_objects := destObjects\<rparr>],
             nextGroupId + 1, nextObjectId'))"
| "groupLayerLoop remap offPX offPY (_ # layers) st =
     groupLayerLoop remap offPX offPY layers st"

fun groupChunkLoop ::
  "Bounds \<Rightarrow> GidRemap list \<Rightarrow> int \<Rightarrow> int \<Rightarrow> MapChunk list \<Rightarrow> nat \<Rightarrow>
   RawObjectGroup list \<times> int \<times> int \<Rightarrow> js_error + (RawObjectGroup list \<times> int \<times> int)" where
  "groupChunkLoop bounds remaps tilewidth tileheight [] idx st = Inr st"
| "groupChunkLoop bounds remaps tilewidth tileheight (chunk # rest) idx st =
     (let remap = nth_opt remaps idx;
          offsetTilesX = num_sub (Fin (offsetX chunk)) (minX bounds);
          offsetTilesY = num_sub (Fin (offsetY chunk)) (minY bounds);
          offsetPixelsX = num_mul offsetTilesX (Fin tilewidth);
          offsetPixelsY = num_mul offsetTilesY (Fin tileheight)
      in case groupLayerLoop remap offsetPixelsX offsetPixelsY (tmj_layers (tmj chunk)) st of
           Inl e \<Rightarrow> Inl e
         | Inr st' \<Rightarrow> groupChunkLoop bounds remaps tilewidth tileheight rest (Suc idx) st')"

definition mergeObjectGroups ::
  "MapChunk list \<Rightarrow> Bounds \<Rightarrow> GidRemap list \<Rightarrow> int \<Rightarrow> int \<Rightarrow> js_error + RawObjectGroup list" where
  "mergeObjectGroups chunks bounds remaps tilewidth tileheight =
     (case groupChunkLoop bounds remaps tilewidth tileheight chunks 0 ([], 1, 1) of
        Inl e \<Rightarrow> Inl e
      | Inr (mergedGroups, nextGroupId, nextObjectId) \<Rightarrow> Inr mergedGroups)"

subsection \<open>\<^verbatim>\<open>mergeTmjMaps\<close>\<close>

text \<open>The validation loop: the first chunk that fails a test decides the error.\<close>

fun validateLoop :: "int \<Rightarrow> int \<Rightarrow> MapChunk list \<Rightarrow> js_error option" where
  "validateLoop tilewidth tileheight [] = None"
| "validateLoop tilewidth tileheight (c # cs) =
     (if tmj_tilewidth (tmj c) \<noteq> tilewidth \<or> tmj_tileheight (tmj c) \<noteq> tileheight
      then Some (Error ''All maps must use same tilewidth/tileheight'')
      else if tmj_infinite (tmj c) = Some True
      then Some (Error ''Infinite maps are not supported in this merger'')
      else validateLoop tilewidth tileheight cs)"

text \<open>
  The merged document: the first chunk's document with four fields replaced.  Its
  width and height are those of the bounds, which are integers for a list of chunks
  that is not empty.
\<close>

definition mergeTmjMaps :: "MapChunk list \<Rightarrow> js_error + RawTmj" where
  "mergeTmjMaps chunks =
     (case chunks of
        [] \<Rightarrow> Inl (Error ''No maps to merge'')
      | c0 # _ \<Rightarrow>
          (let tilewidth = tmj_tilewidth (tmj c0);
               tileheight = tmj_tileheight (tmj c0)
           in case validateLoop tilewidth tileheight chunks of
                Some e \<Rightarrow> Inl e
              | None \<Rightarrow>
                  (let bounds = computeBounds chunks;
                       (globalTs, remaps) = mergeTilesets chunks
                   in case mergeTileLayers chunks bounds remaps of
                        Inl e \<Rightarrow> Inl e
                      | Inr tileLayers \<Rightarrow>
                          (case mergeObjectGroups chunks bounds remaps tilewidth tileheight of
                             Inl e \<Rightarrow> Inl e
                           | Inr objectGroups \<Rightarrow>
                               (case (b_width bounds, b_height bounds) of
                                  (Fin w, Fin h) \<Rightarrow>
                                    Inr ((tmj c0)\<lparr>tmj_width := w, tmj_height := h,
                                           tmj_layers := map TileLayer tileLayers @ map ObjectGroup objectGroups,
                                           tmj_tilesets := globalTs\<rparr>)
                                | _ \<Rightarrow> Inl RangeError)))))"

subsection \<open>Notions for stating the properties of the merge\<close>

definition tileLayersOf :: "RawLayer list \<Rightarrow> RawTileLayer list" where
  "tileLayersOf layers = concat (map (\<lambda>l. case l of TileLayer t \<Rightarrow> [t] | _ \<Rightarrow> []) layers)"

definition objectGroupsOf :: "RawLayer list \<Rightarrow> RawObjectGroup list" where
  "objectGroupsOf layers = concat (map (\<lambda>l. case l of ObjectGroup g \<Rightarrow> [g] | _ \<Rightarrow> []) layers)"

definition isValidationError :: "js_error \<Rightarrow> bool" where
  "isValidationError e = (case e of Error m \<Rightarrow> True | _ \<Rightarrow> False)"

subsection \<open>Two small maps for the examples\<close>

definition exTileset :: RawTilesetRef where
  "exTileset = \<lparr>ts_firstgid = 1, ts_source = None, ts_name = Some ''tiles'',
                 ts_tilewidth = Some 16, ts_tileheight = Some 16, ts_tilecount = Some 4,
                 ts_columns = Some 2, ts_image = Some ''tiles.png'', ts_tiles = None,
                 ts_other = []\<rparr>"

definition exTiles :: RawTileLayer where
  "exTiles = \<lparr>l_id = 5, l_name = ''ground'', l_opacity = None, l_visible = Some True,
               l_x = Some 0, l_y = Some 0, l_properties = None,
               tl_width = 2, tl_height = 2, tl_data = [1, 2, 0, 4]\<rparr>"

definition exObjects :: RawObjectGroup where
  "exObjects = \<lparr>l_id = 9, l_name = ''things'', l_opacity = None, l_visible = Some True,
                 l_x = Some 0, l_y = Some 0, l_properties = None,
                 og_objects =
                   [\<lparr>o_id = 40, o_name = ''door'', o_type = '''', o_x = Fin 3, o_y = Fin 8,
                     o_width = None, o_height = None, o_rotation = None, o_properties = None,
                     o_gid = Some 3\<rparr>,
                    \<lparr>o_id = 41, o_name = ''spawn'', o_type = '''', o_x = Fin 20, o_y = Fin 1,
                     o_width = None, o_height = None, o_rotation = None, o_properties = None,
                     o_gid = None\<rparr>]\<rparr>"

definition exDoc :: RawTmj where
  "exDoc = \<lparr>tmj_height = 2, tmj_width = 2, tmj_tileheight = 16, tmj_tilewidth = 16,
             tmj_layers = [TileLayer exTiles, ObjectGroup exObjects],
             tmj_tilesets = [exTileset], tmj_orientation = ''orthogonal'',
             tmj_renderorder = ''right-down'', tmj_infinite = None, tmj_properties = None,
             tmj_other = []\<rparr>"

definition chunkA :: MapChunk where
  "chunkA = \<lparr>chunk_id = ''a'', tmj = exDoc, offsetX = 0, offsetY = 0\<rparr>"

definition chunkB :: MapChunk where
  "chunkB = \<lparr>chunk_id = ''b'', tmj = exDoc, offsetX = 2, offsetY = 0\<rparr>"

definition chunkInfinite :: MapChunk where
  "chunkInfinite = \<lparr>chunk_id = ''inf'', tmj = exDoc\<lparr>tmj_infinite := Some True\<rparr>,
                     offsetX = 0, offsetY = 0\<rparr>"

definition chunkWide :: MapChunk where
  "chunkWide = \<lparr>chunk_id = ''wide'', tmj = exDoc\<lparr>tmj_tilewidth := 32\<rparr>,
                 offsetX = 2, offsetY = 0\<rparr>"

text \<open>The \<open>n\<close> consecutive integers from \<open>a\<close> on.\<close>

definition seqFrom :: "int \<Rightarrow> nat \<Rightarrow> int list" where
  "seqFrom a n = map (\<lambda>k. a + int k) [0..<n]"

definition layerId :: "RawLayer \<Rightarrow> int" where
  "layerId l =
     (case l of TileLayer t \<Rightarrow> l_id t | ObjectGroup g \<Rightarrow> l_id g
      | ImageLayer i \<Rightarrow> l_id i | GroupLayer b ls \<Rightarrow> l_id b)"

text \<open>
  The tile layers of the chunks in the order in which the merge visits them, each with
  the index of its chunk and the chunk; \<open>idx\<close> is the index of the first chunk.
\<close>

fun tileSourcesFrom :: "nat \<Rightarrow> MapChunk list \<Rightarrow> (nat \<times> MapChunk \<times> RawTileLayer) list" where
  "tileSourcesFrom idx [] = []"
| "tileSourcesFrom idx (c # cs) =
     map (\<lambda>src. (idx, c, src)) (tileLayersOf (tmj_layers (tmj c))) @ tileSourcesFrom (Suc idx) cs"

text \<open>The object groups of the chunks in the order in which the merge visits them.\<close>

definition groupSources :: "MapChunk list \<Rightarrow> RawObjectGroup list" where
  "groupSources chunks = concat (map (\<lambda>c. objectGroupsOf (tmj_layers (tmj c))) chunks)"

subsection \<open>Notions for stating the properties of \<^verbatim>\<open>mergeTilesets\<close>\<close>

text \<open>All tilesets of all chunks, in the order in which \<^verbatim>\<open>mergeTilesets\<close> visits them.\<close>

definition allTilesets :: "MapChunk list \<Rightarrow> RawTilesetRef list" where
  "allTilesets chunks = concat (map (\<lambda>c. tmj_tilesets (tmj c)) chunks)"

text \<open>
  First-seen order: of the elements with the same key only the first is kept, and the
  kept ones stay in their order.
\<close>

fun firstSeen :: "('a \<Rightarrow> 'k) \<Rightarrow> 'a list \<Rightarrow> 'a list" where
  "firstSeen key [] = []"
| "firstSeen key (x # xs) = x # firstSeen key (filter (\<lambda>y. key y \<noteq> key x) xs)"

text \<open>
  Numbering from a counter: each tileset gets the counter as its \<open>firstgid\<close>, and the
  counter advances by its tile count.
\<close>

fun renumber :: "int \<Rightarrow> RawTilesetRef list \<Rightarrow> RawTilesetRef list" where
  "renumber n [] = []"
| "renumber n (ts # tss) = ts\<lparr>ts_firstgid := n\<rparr> # renumber (n + tileCountOf ts) tss"

text \<open>The \<open>firstgid\<close> of the global tileset with a given key (\<open>0\<close> when there is none).\<close>

definition globalFirstGid :: "RawTilesetRef list \<Rightarrow> TilesetKey \<Rightarrow> int" where
  "globalFirstGid gts k =
     (case find (\<lambda>g. tilesetKey g = k) gts of None \<Rightarrow> 0 | Some g \<Rightarrow> ts_firstgid g)"

text \<open>A tileset covers the GIDs from its \<open>firstgid\<close> on, as many as it has tiles.\<close>

definition covers :: "RawTilesetRef \<Rightarrow> int \<Rightarrow> bool" where
  "covers ts gid = (ts_firstgid ts \<le> gid \<and> gid < ts_firstgid ts + tileCountOf ts)"

text \<open>What the tileset step does to the list of global tilesets.\<close>

definition dedupStep :: "RawTilesetRef list \<Rightarrow> RawTilesetRef \<Rightarrow> RawTilesetRef list" where
  "dedupStep gts ts =
     (if tilesetKey ts \<in> set (map tilesetKey gts) then gts
      else gts @ [ts\<lparr>ts_firstgid := 1 + sum_list (map tileCountOf gts)\<rparr>])"

text \<open>What the tileset step does to the remap of its chunk, given the \<open>firstgid\<close> assigned.\<close>

definition fillRange :: "int \<Rightarrow> RawTilesetRef \<Rightarrow> GidRemap \<Rightarrow> GidRemap" where
  "fillRange newFirstGid ts m =
     (\<lambda>gid. if covers ts gid then Some (newFirstGid + (gid - ts_firstgid ts)) else m gid)"

text \<open>The consistency of the state of \<^verbatim>\<open>mergeTilesets\<close>.\<close>

definition tilesetInv :: "TilesetState \<Rightarrow> bool" where
  "tilesetInv st =
     ((\<forall>k i. tilesetKeyToGlobalIndex st k = Some i \<longrightarrow>
               i < length (globalTilesets st) \<and> tilesetKey (globalTilesets st ! i) = k) \<and>
      (\<forall>g \<in> set (globalTilesets st). tilesetKeyToGlobalIndex st (tilesetKey g) \<noteq> None) \<and>
      distinct (map tilesetKey (globalTilesets st)) \<and>
      nextFirstGid st = 1 + sum_list (map tileCountOf (globalTilesets st)))"

text \<open>
  The remap a list of tilesets leaves, given the global tilesets: each tileset in turn
  writes its range, over what was written before.
\<close>

definition fillAll :: "RawTilesetRef list \<Rightarrow> GidRemap \<Rightarrow> RawTilesetRef list \<Rightarrow> GidRemap" where
  "fillAll gts m tss =
     foldl (\<lambda>m ts. fillRange (globalFirstGid gts (tilesetKey ts)) ts m) m tss"



subsection \<open>Notions for stating the properties of \<^verbatim>\<open>mergeTileLayers\<close>\<close>

text \<open>
  For a source cell \<open>(localX, localY)\<close> of a layer placed at offset \<open>(ox, oy)\<close> in
  a grid of \<open>W\<close> by \<open>H\<close> cells: the GID the loop reads, the GID it writes, whether the
  destination cell lies in the grid, and the index of the destination cell.
\<close>

definition srcGid :: "RawTileLayer \<Rightarrow> int \<times> int \<Rightarrow> int" where
  "srcGid src cell = (case cell of (localX, localY) \<Rightarrow> readCell (tl_data src) (localY * tl_width src + localX))"

definition remapGid :: "GidRemap \<Rightarrow> int \<Rightarrow> int" where
  "remapGid m gid = (case m gid of None \<Rightarrow> gid | Some g \<Rightarrow> g)"

definition inBounds :: "int \<Rightarrow> int \<Rightarrow> int \<Rightarrow> int \<Rightarrow> int \<times> int \<Rightarrow> bool" where
  "inBounds W H ox oy cell =
     (case cell of (localX, localY) \<Rightarrow>
        0 \<le> ox + localX \<and> ox + localX < W \<and> 0 \<le> oy + localY \<and> oy + localY < H)"

definition destCell :: "int \<Rightarrow> int \<Rightarrow> int \<Rightarrow> int \<times> int \<Rightarrow> nat" where
  "destCell W ox oy cell = (case cell of (localX, localY) \<Rightarrow> nat ((oy + localY) * W + (ox + localX)))"

text \<open>A source cell is written when its GID is not \<open>0\<close> and its destination is in the grid.\<close>

definition written :: "RawTileLayer \<Rightarrow> int \<Rightarrow> int \<Rightarrow> int \<Rightarrow> int \<Rightarrow> int \<times> int \<Rightarrow> bool" where
  "written src W H ox oy cell = (srcGid src cell \<noteq> 0 \<and> inBounds W H ox oy cell)"

text \<open>One round of the cell loop, for integer bounds and offsets and a remap that is there.\<close>

definition writeCell ::
  "RawTileLayer \<Rightarrow> GidRemap \<Rightarrow> int \<Rightarrow> int \<Rightarrow> int \<Rightarrow> int \<Rightarrow> int list \<Rightarrow> int \<times> int \<Rightarrow> int list" where
  "writeCell src m W H ox oy dest cell =
     (if written src W H ox oy cell
      then dest[destCell W ox oy cell := remapGid m (srcGid src cell)] else dest)"

text \<open>The number of cells of a grid that are not empty.\<close>

definition nonzeroCells :: "int list \<Rightarrow> nat" where
  "nonzeroCells cells = length (filter (\<lambda>v. v \<noteq> 0) cells)"

text \<open>
  The tile offset of a chunk in the merged grid: its own offset less the least offset
  of all chunks.
\<close>

definition gridOffsetX :: "MapChunk list \<Rightarrow> MapChunk \<Rightarrow> int" where
  "gridOffsetX chunks c = offsetX c - Min (set (map offsetX chunks))"

definition gridOffsetY :: "MapChunk list \<Rightarrow> MapChunk \<Rightarrow> int" where
  "gridOffsetY chunks c = offsetY c - Min (set (map offsetY chunks))"

section \<open>Properties of the colour tools\<close>






lemma indexOf_notin: "(indexOf xs k = -1) = (k \<notin> set xs)"
  and indexOf_ge: "-1 \<le> indexOf xs k"
  by (induction xs) (auto simp: Let_def)




lemma colorToKey_eq: "(colorToKey c1 = colorToKey c2) = (c1 = (c2::Color))"
  by (cases c1, cases c2) (auto simp: colorToKey_def)

lemma clampColor_valid: "valid_color c \<Longrightarrow> clampColor c = c"
  by (cases c) (simp add: clampColor_def valid_color_def clamp8_def uint_word_of_int take_bit_int_eq_self)



lemma findReplacement_exact_miss:
  assumes "\<forall>j<length changes. cfrom (changes ! j) \<noteq> p"
  shows "findReplacement changes False tol p = None"
proof -
  let ?ks = "map (\<lambda>c. colorToKey (cfrom c)) changes"
  have "colorToKey p \<notin> set ?ks"
    using assms by (auto simp: colorToKey_eq in_set_conv_nth)
  then have "indexOf ?ks (colorToKey p) = -1" by (simp add: indexOf_notin)
  then show ?thesis by (simp add: findReplacement_def Let_def)
qed




lemma first_min_unique: "first_min d n j \<Longrightarrow> first_min d n j' \<Longrightarrow> j = j'"
  unfolding first_min_def by (metis linorder_neqE_nat not_less)




lemma indexOf_less: "indexOf xs k < int (length xs)"
  by (induction xs) (auto simp: Let_def)

lemma findReplacement_exact_Some:
  assumes "findReplacement changes False tol p = Some rep"
  shows "\<exists>c\<in>set changes. rep = cto c"
proof -
  let ?i = "indexOf (map (\<lambda>c. colorToKey (cfrom c)) changes) (colorToKey p)"
  from assms have ne: "?i \<noteq> -1" and rep: "rep = cto (changes ! nat ?i)"
    by (auto simp: findReplacement_def Let_def split: if_splits)
  have "-1 \<le> ?i" by (rule indexOf_ge)
  with ne have "0 \<le> ?i" by linarith
  moreover have "?i < int (length changes)" using indexOf_less[of "map (\<lambda>c. colorToKey (cfrom c)) changes"] by simp
  ultimately have "nat ?i < length changes" by linarith
  then show ?thesis using rep by auto
qed

lemma findReplacement_exact_notin:
  assumes "\<forall>c\<in>set changes. cfrom c \<noteq> p"
  shows "findReplacement changes False tol p = None"
  using assms by (intro findReplacement_exact_miss) auto

lemma findReplacement_exact_tol:
  "findReplacement changes False tol p = findReplacement changes False tol' p"
  by (simp add: findReplacement_def)

lemma clamped_valid:
  assumes "valid_color c"
  shows "\<lparr>c_r = uint (clamp8 (c_r c)), c_g = uint (clamp8 (c_g c)),
          c_b = uint (clamp8 (c_b c)), c_a = uint (clamp8 (c_a c))\<rparr> = c"
  using clampColor_valid[OF assms] by (simp add: clampColor_def)

lemma recolorLoop_idem:
  "\<not> ut \<Longrightarrow> \<forall>c\<in>set changes. \<forall>c'\<in>set changes. cto c \<noteq> cfrom c' \<Longrightarrow>
   \<forall>c\<in>set changes. valid_color (cto c) \<Longrightarrow>
   recolorLoop changes ut tol (recolorLoop changes ut tol xs) = recolorLoop changes ut tol xs"
proof (induction changes ut tol xs rule: recolorLoop.induct)
  case (1 changes ut tol r g b a rest)
  let ?p = "\<lparr>c_r = uint r, c_g = uint g, c_b = uint b, c_a = uint a\<rparr>"
  have ut: "ut = False" using "1.prems"(1) by simp
  show ?case
  proof (cases "a = 0")
    case True
    with 1 show ?thesis by simp
  next
    case False
    show ?thesis
    proof (cases "findReplacement changes ut tol ?p")
      case None
      with False 1 show ?thesis by simp
    next
      case (Some rep)
      then obtain c where c: "c \<in> set changes" "rep = cto c"
        using findReplacement_exact_Some[of changes tol ?p rep] ut by auto
      have v: "valid_color rep" using c "1.prems"(3) by auto
      have nf: "\<forall>c'\<in>set changes. cfrom c' \<noteq> rep" using c "1.prems"(2) by metis
      have again: "findReplacement changes ut tol rep = None"
        using findReplacement_exact_notin[OF nf] ut by simp
      have IH: "recolorLoop changes ut tol (recolorLoop changes ut tol rest) =
                recolorLoop changes ut tol rest"
        using "1.IH"(3)[OF False Some] "1.prems" by simp
      show ?thesis
        using False Some IH again by (simp add: clamped_valid[OF v])
    qed
  qed
qed simp_all


text \<open>
  Claim C9.  In exact mode, when no \<open>to\<close> colour of the list is the \<open>from\<close>
  colour of any change of the list (the colours being colours of the data model,
  channels in \<open>0..255\<close>), recolouring the result of a recolouring with the same list
  gives a buffer with the same contents, and an image of the same size.
\<close>

theorem applyColorMappingsToImageData_idempotent:
  assumes "\<forall>c\<in>set changes. \<forall>c'\<in>set changes. cto c \<noteq> cfrom c'"
    and "\<forall>c\<in>set changes. valid_color (cto c)"
    and "applyColorMappingsToImageData s base changes False toleranceSq = (s1, once)"
    and "applyColorMappingsToImageData s1 once changes False toleranceSq = (s2, twice)"
  shows "bufs s2 (img_data twice) = bufs s1 (img_data once) \<and>
         img_width twice = img_width once \<and> img_height twice = img_height once"
  using assms(3,4) recolorLoop_idem[OF _ assms(1,2), of False toleranceSq]
  by (auto simp: applyColorMappingsToImageData_def newUint8ClampedArray_def Let_def)



text \<open>The theorem of C9 at the same image and change.\<close>

theorem applyColorMappingsToImageData_idempotent_witness:
  "bufs (fst (applyColorMappingsToImageData
                (fst (applyColorMappingsToImageData store0 image0 [\<lparr>cfrom = red, cto = green\<rparr>] False 400))
                (snd (applyColorMappingsToImageData store0 image0 [\<lparr>cfrom = red, cto = green\<rparr>] False 400))
                [\<lparr>cfrom = red, cto = green\<rparr>] False 400))
        (img_data (snd (applyColorMappingsToImageData
                (fst (applyColorMappingsToImageData store0 image0 [\<lparr>cfrom = red, cto = green\<rparr>] False 400))
                (snd (applyColorMappingsToImageData store0 image0 [\<lparr>cfrom = red, cto = green\<rparr>] False 400))
                [\<lparr>cfrom = red, cto = green\<rparr>] False 400)))
   = [0, 255, 0, 255, 0, 0, 0, 0, 250, 0, 0, 255, 0, 0, 255, 255]"
proof -
  let ?ch = "[\<lparr>cfrom = red, cto = green\<rparr>]"
  let ?once = "applyColorMappingsToImageData store0 image0 ?ch False 400"
  let ?twice = "applyColorMappingsToImageData (fst ?once) (snd ?once) ?ch False 400"
  have nofrom: "\<forall>c\<in>set ?ch. \<forall>c'\<in>set ?ch. cto c \<noteq> cfrom c'"
    by (simp add: red_def green_def)
  have valid: "\<forall>c\<in>set ?ch. valid_color (cto c)"
    by (simp add: valid_color_def green_def)
  have once: "bufs (fst ?once) (img_data (snd ?once)) =
              [0, 255, 0, 255, 0, 0, 0, 0, 250, 0, 0, 255, 0, 0, 255, 255]"
    by (simp add: applyColorMappingsToImageData_def newUint8ClampedArray_def Let_def
          store0_def image0_def findReplacement_def colorToKey_def red_def green_def clamp8_def)
  from applyColorMappingsToImageData_idempotent[OF nofrom valid
         prod.collapse[symmetric, of ?once] prod.collapse[symmetric, of ?twice]]
  show ?thesis by (simp add: once)
qed

subsection \<open>The scan of \<^verbatim>\<open>extractDominantColors\<close>\<close>

lemma scanRow_steps:
  "0 < step \<Longrightarrow>
   scanRow bytes w step y x counts =
     Some (foldl (\<lambda>c x. countPixel bytes w y x c) counts (stepsFrom x w step))"
proof (induction x w step arbitrary: counts rule: stepsFrom.induct)
  case (1 x n step)
  show ?case
  proof (cases "x < n")
    case True
    have "scanRow bytes n step y x counts =
          scanRow bytes n step y (x + step) (countPixel bytes n y x counts)"
      using True by (subst scanRow.simps) simp
    also have "\<dots> = Some (foldl (\<lambda>c x. countPixel bytes n y x c) (countPixel bytes n y x counts)
                          (stepsFrom (x + step) n step))"
      using True "1.prems" by (intro "1.IH") simp_all
    also have "\<dots> = Some (foldl (\<lambda>c x. countPixel bytes n y x c) counts (stepsFrom x n step))"
      using True "1.prems" by (subst (2) stepsFrom.simps) simp
    finally show ?thesis .
  next
    case False
    then show ?thesis
      by (subst scanRow.simps, subst stepsFrom.simps) simp
  qed
qed

lemma scanRows_steps:
  "0 < step \<Longrightarrow>
   scanRows bytes w h step y counts =
     Some (foldl (\<lambda>c y. foldl (\<lambda>c x. countPixel bytes w y x c) c (stepsFrom 0 w step))
             counts (stepsFrom y h step))"
proof (induction y h step arbitrary: counts rule: stepsFrom.induct)
  case (1 y n step)
  let ?row = "\<lambda>c y. foldl (\<lambda>c x. countPixel bytes w y x c) c (stepsFrom 0 w step)"
  show ?case
  proof (cases "y < n")
    case True
    have "scanRows bytes w n step y counts =
          Option.bind (scanRow bytes w step y 0 counts) (scanRows bytes w n step (y + step))"
      using True by (subst scanRows.simps) simp
    also have "\<dots> = scanRows bytes w n step (y + step) (?row counts y)"
      using "1.prems" by (simp add: scanRow_steps)
    also have "\<dots> = Some (foldl ?row (?row counts y) (stepsFrom (y + step) n step))"
      using True "1.prems" by (intro "1.IH") simp_all
    also have "\<dots> = Some (foldl ?row counts (stepsFrom y n step))"
      using True "1.prems" by (subst (2) stepsFrom.simps) simp
    finally show ?thesis .
  next
    case False
    then show ?thesis
      by (subst scanRows.simps, subst stepsFrom.simps) simp
  qed
qed

lemma foldl_rows:
  "foldl (\<lambda>c y. foldl (\<lambda>c x. f c (x, y)) c xs) c ys =
   foldl f c (concat (map (\<lambda>y. map (\<lambda>x. (x, y)) xs) ys))"
proof (induction ys arbitrary: c)
  case Nil
  then show ?case by simp
next
  case (Cons y ys)
  have "foldl (\<lambda>c x. f c (x, y)) c xs = foldl f c (map (\<lambda>x. (x, y)) xs)"
    by (induction xs arbitrary: c) simp_all
  then show ?case using Cons.IH by simp
qed

lemma foldl_countPixel:
  "foldl (\<lambda>c p. case p of (x, y) \<Rightarrow> countPixel bytes w y x c) counts points =
   foldl bump counts
     (map (\<lambda>px. case px of (r, g, b, a) \<Rightarrow> quantizeColor r g b a)
        (filter (\<lambda>px. \<not> transparent px) (map (pixelRead bytes w) points)))"
proof (induction points arbitrary: counts)
  case Nil
  then show ?case by simp
next
  case (Cons p points)
  obtain x y where p: "p = (x, y)" by (cases p)
  show ?case
    using Cons.IH
    by (simp add: p countPixel_def Let_def pixelRead_def transparent_def)
qed

lemma scan_buckets:
  assumes "0 < step"
  shows "scanRows bytes w h step 0 [] = Some (foldl bump [] (sampledBuckets bytes w h step))"
proof -
  have "scanRows bytes w h step 0 [] =
        Some (foldl (\<lambda>c y. foldl (\<lambda>c x. (case (x, y) of (x, y) \<Rightarrow> countPixel bytes w y x c)) c
                              (stepsFrom 0 w step)) [] (stepsFrom 0 h step))"
    using assms by (simp add: scanRows_steps)
  also have "\<dots> = Some (foldl (\<lambda>c p. case p of (x, y) \<Rightarrow> countPixel bytes w y x c) []
                          (samplePoints w h step))"
    unfolding samplePoints_def
    using foldl_rows[where f = "\<lambda>c p. case p of (x, y) \<Rightarrow> countPixel bytes w y x c"
                       and c = "[]" and xs = "stepsFrom 0 w step" and ys = "stepsFrom 0 h step"]
    by simp
  finally show ?thesis by (simp add: foldl_countPixel sampledBuckets_def)
qed

subsection \<open>The counts\<close>

lemma indexOf_append_in: "k \<in> set xs \<Longrightarrow> indexOf (xs @ ys) k = indexOf xs k"
  by (induction xs) (auto simp: Let_def indexOf_notin)

lemma indexOf_append_new: "k \<notin> set xs \<Longrightarrow> indexOf (xs @ [k]) k = int (length xs)"
  by (induction xs) (auto simp: Let_def)

lemma map_fst_bump:
  "map fst (bump H k) = (if k \<in> set (map fst H) then map fst H else map fst H @ [k])"
  by (induction H k rule: bump.induct) auto

lemma map_of_bump:
  "map_of (bump H k) = (map_of H)(k \<mapsto> (case map_of H k of None \<Rightarrow> 1 | Some n \<Rightarrow> n + 1))"
  by (induction H k rule: bump.induct) (auto simp: fun_eq_iff)

lemma histogram_inv:
  "distinct (map fst (foldl bump [] ks)) \<and>
   set (map fst (foldl bump [] ks)) = set ks \<and>
   (\<forall>k. map_of (foldl bump [] ks) k =
          (if k \<in> set ks then Some (int (count_list ks k)) else None)) \<and>
   sorted_wrt (\<lambda>a b. indexOf ks a < indexOf ks b) (map fst (foldl bump [] ks))"
proof (induction ks rule: rev_induct)
  case Nil
  then show ?case by simp
next
  case (snoc k ks)
  let ?H = "foldl bump [] ks"
  from snoc have dist: "distinct (map fst ?H)" and keys: "set (map fst ?H) = set ks"
    and cnt: "\<And>k'. map_of ?H k' = (if k' \<in> set ks then Some (int (count_list ks k')) else None)"
    and ord: "sorted_wrt (\<lambda>a b. indexOf ks a < indexOf ks b) (map fst ?H)"
    by simp_all
  have H': "foldl bump [] (ks @ [k]) = bump ?H k" by simp
  have dist': "distinct (map fst (bump ?H k))"
    using dist by (simp add: map_fst_bump)
  have keys': "set (map fst (bump ?H k)) = set (ks @ [k])"
    using keys by (auto simp: map_fst_bump)
  have cnt': "map_of (bump ?H k) k' =
          (if k' \<in> set (ks @ [k]) then Some (int (count_list (ks @ [k]) k')) else None)" for k'
    by (simp add: map_of_bump cnt)
  have ord0: "sorted_wrt (\<lambda>a b. indexOf (ks @ [k]) a < indexOf (ks @ [k]) b) (map fst ?H)"
  proof (rule sorted_wrt_mono_rel[OF _ ord])
    fix a b assume "a \<in> set (map fst ?H)" "b \<in> set (map fst ?H)" "indexOf ks a < indexOf ks b"
    then show "indexOf (ks @ [k]) a < indexOf (ks @ [k]) b"
      unfolding keys by (simp add: indexOf_append_in)
  qed
  have ord': "sorted_wrt (\<lambda>a b. indexOf (ks @ [k]) a < indexOf (ks @ [k]) b) (map fst (bump ?H k))"
  proof (cases "k \<in> set ks")
    case True
    then show ?thesis using ord0 keys by (simp add: map_fst_bump)
  next
    case False
    have "indexOf (ks @ [k]) a < indexOf (ks @ [k]) k" if "a \<in> set ks" for a
      using that False indexOf_less[of ks a] by (simp add: indexOf_append_in indexOf_append_new)
    then show ?thesis
      using ord0 keys False by (simp add: map_fst_bump sorted_wrt_append)
  qed
  show ?case unfolding H' using dist' keys' cnt' ord' by blast
qed

lemma histogram_entry:
  assumes "e \<in> set (foldl bump [] ks)"
  shows "snd e = int (count_list ks (fst e))"
proof -
  obtain k c where e: "e = (k, c)" by (cases e)
  have "map_of (foldl bump [] ks) k = Some c"
    using assms histogram_inv[of ks] unfolding e by (intro map_of_is_SomeI) simp_all
  moreover have "k \<in> set ks"
    using assms histogram_inv[of ks] unfolding e by force
  ultimately show ?thesis using histogram_inv[of ks] by (simp add: e)
qed

subsection \<open>The ranking\<close>

lemma insort_key_lex:
  assumes "sorted_wrt (\<lambda>a b. f a < f b \<or> (f a = f b \<and> R a b)) ys" "\<forall>y\<in>set ys. R x y"
  shows "sorted_wrt (\<lambda>a b. f a < f b \<or> (f a = f b \<and> R a b)) (insort_key f x ys)"
  using assms
proof (induction ys)
  case Nil
  then show ?case by simp
next
  case (Cons y ys)
  show ?case
  proof (cases "f x \<le> f y")
    case True
    have "f x < f z \<or> (f x = f z \<and> R x z)" if "z \<in> set (y # ys)" for z
    proof -
      have "f y \<le> f z" using that Cons.prems(1) by auto
      then show ?thesis using True that Cons.prems(2) by auto
    qed
    then show ?thesis using True Cons.prems(1) by simp
  next
    case False
    have "sorted_wrt (\<lambda>a b. f a < f b \<or> (f a = f b \<and> R a b)) (insort_key f x ys)"
      using Cons.prems by (intro Cons.IH) simp_all
    then show ?thesis using False Cons.prems(1) by (auto simp: set_insort_key)
  qed
qed

lemma sort_key_lex:
  "sorted_wrt R xs \<Longrightarrow>
   sorted_wrt (\<lambda>a b. f a < f b \<or> (f a = f b \<and> R a b)) (sort_key f xs)"
proof (induction xs)
  case Nil
  then show ?case by simp
next
  case (Cons x xs)
  have "sorted_wrt (\<lambda>a b. f a < f b \<or> (f a = f b \<and> R a b)) (sort_key f xs)"
    using Cons by simp
  moreover have "\<forall>y\<in>set (sort_key f xs). R x y" using Cons.prems by simp
  ultimately show ?case by (simp add: insort_key_lex)
qed

lemma ranked_histogram:
  "sorted_wrt (ranksBefore ks) (sort_key (\<lambda>e. - snd e) (foldl bump [] ks))"
proof -
  let ?H = "foldl bump [] ks"
  have "sorted_wrt (\<lambda>a b. indexOf ks a < indexOf ks b) (map fst ?H)"
    using histogram_inv[of ks] by simp
  then have "sorted_wrt (\<lambda>e1 e2. indexOf ks (fst e1) < indexOf ks (fst e2)) ?H"
    by (simp add: sorted_wrt_map)
  from sort_key_lex[OF this, of "\<lambda>e. - snd e"]
  show ?thesis by (simp add: ranksBefore_def[abs_def])
qed

subsection \<open>Buckets and their representatives\<close>

lemma quantizeChannel_range: "0 \<le> quantizeChannel v \<and> quantizeChannel v < 16"
proof (cases v)
  case None
  then show ?thesis by (simp add: quantizeChannel_def)
next
  case (Some n)
  have "drop_bit 4 n AND 15 \<le> 15" by (rule AND_upper2) simp
  moreover have "0 \<le> drop_bit 4 n AND 15" by simp
  ultimately show ?thesis using Some by (simp add: quantizeChannel_def)
qed

lemma and_15_small:
  fixes q :: int
  assumes "0 \<le> q" "q < 16"
  shows "q AND 15 = q"
proof -
  have "take_bit 4 q = q" using assms by (simp add: take_bit_int_eq_self)
  then have "q AND mask 4 = q" by (simp add: take_bit_eq_mask)
  then show ?thesis by (simp add: mask_eq_exp_minus_1)
qed

lemma expand_small:
  assumes "0 \<le> q" "q < 16"
  shows "expand q = push_bit 4 q OR q"
  using and_15_small[OF assms] by (simp add: expand_def)

lemma sampledBuckets_range:
  assumes "k \<in> set (sampledBuckets bytes w h step)"
  shows "case k of (qr, qg, qb, qa) \<Rightarrow>
           0 \<le> qr \<and> qr < 16 \<and> 0 \<le> qg \<and> qg < 16 \<and> 0 \<le> qb \<and> qb < 16 \<and> 0 \<le> qa \<and> qa < 16 \<and>
           dequantizeColor k =
             \<lparr>c_r = push_bit 4 qr OR qr, c_g = push_bit 4 qg OR qg,
              c_b = push_bit 4 qb OR qb, c_a = push_bit 4 qa OR qa\<rparr>"
proof -
  from assms obtain r g b a where k: "k = quantizeColor r g b a"
    by (auto simp: sampledBuckets_def)
  show ?thesis
    using quantizeChannel_range[of r] quantizeChannel_range[of g]
          quantizeChannel_range[of b] quantizeChannel_range[of a]
    by (simp add: k quantizeColor_def dequantizeColor_def expand_small)
qed

subsection \<open>The palette\<close>

lemma distinct_singleton_set:
  "distinct xs \<Longrightarrow> set xs = {k} \<Longrightarrow> xs = [k]"
proof (cases xs)
  case Nil
  assume "set xs = {k}"
  with Nil show ?thesis by simp
next
  case (Cons x ys)
  assume d: "distinct xs" and s: "set xs = {k}"
  have x: "x = k" using s Cons by auto
  have "set ys \<subseteq> {k}" using s Cons by auto
  moreover have "k \<notin> set ys" using d Cons x by simp
  ultimately have "ys = []" by (cases ys) auto
  then show ?thesis using Cons x by simp
qed

text \<open>
  Claim C8.  For a positive sample step the scan ends, and for a \<open>maxColors\<close> that is
  not negative the result is made from a ranking of the buckets: its entries are the
  buckets of the sampled pixels that are not fully transparent, each once, with the
  number of such pixels in the bucket; an entry comes before another when its count is
  greater, or the counts are equal and its bucket is met first in the scan (rows from
  the top, pixels from the left, both stepped).  The result is the representatives of
  the first \<open>maxColors\<close> buckets of the ranking, so it has \<open>maxColors\<close> colours or as
  many as there are buckets, whichever is less.  A bucket is four numbers in \<open>0..15\<close>
  and its representative has \<open>(bucket << 4) | bucket\<close> in every channel.  When all
  sampled pixels have one colour that is not fully transparent (and there is a sampled
  pixel, and \<open>maxColors\<close> is at least \<open>1\<close>), the result is the one representative of
  that colour's bucket.
\<close>

theorem extractDominantColors_spec:
  assumes step: "0 < sampleStep" and mc: "0 \<le> maxColors"
  shows
    "extractDominantColors s img maxColors sampleStep =
       Some (map dequantizeColor (take (nat maxColors) (map fst (rankBuckets
         (sampledBuckets (bufs s (img_data img)) (img_width img) (img_height img) sampleStep))))) \<and>
     length (take (nat maxColors) (map fst (rankBuckets
         (sampledBuckets (bufs s (img_data img)) (img_width img) (img_height img) sampleStep)))) =
       min (nat maxColors)
         (card (set (sampledBuckets (bufs s (img_data img)) (img_width img) (img_height img) sampleStep))) \<and>
     distinct (map fst (rankBuckets
         (sampledBuckets (bufs s (img_data img)) (img_width img) (img_height img) sampleStep))) \<and>
     set (map fst (rankBuckets
         (sampledBuckets (bufs s (img_data img)) (img_width img) (img_height img) sampleStep))) =
       set (sampledBuckets (bufs s (img_data img)) (img_width img) (img_height img) sampleStep) \<and>
     (\<forall>e\<in>set (rankBuckets
         (sampledBuckets (bufs s (img_data img)) (img_width img) (img_height img) sampleStep)).
        snd e = int (count_list
          (sampledBuckets (bufs s (img_data img)) (img_width img) (img_height img) sampleStep) (fst e))) \<and>
     sorted_wrt (ranksBefore
       (sampledBuckets (bufs s (img_data img)) (img_width img) (img_height img) sampleStep))
       (rankBuckets
         (sampledBuckets (bufs s (img_data img)) (img_width img) (img_height img) sampleStep)) \<and>
     (\<forall>k\<in>set (sampledBuckets (bufs s (img_data img)) (img_width img) (img_height img) sampleStep).
        case k of (qr, qg, qb, qa) \<Rightarrow>
           0 \<le> qr \<and> qr < 16 \<and> 0 \<le> qg \<and> qg < 16 \<and> 0 \<le> qb \<and> qb < 16 \<and> 0 \<le> qa \<and> qa < 16 \<and>
           dequantizeColor k =
             \<lparr>c_r = push_bit 4 qr OR qr, c_g = push_bit 4 qg OR qg,
              c_b = push_bit 4 qb OR qb, c_a = push_bit 4 qa OR qa\<rparr>) \<and>
     (\<forall>r g b a.
        samplePoints (img_width img) (img_height img) sampleStep \<noteq> [] \<and> 1 \<le> maxColors \<and> a \<noteq> 0 \<and>
        (\<forall>p\<in>set (samplePoints (img_width img) (img_height img) sampleStep).
           pixelRead (bufs s (img_data img)) (img_width img) p = (Some r, Some g, Some b, Some a)) \<longrightarrow>
        extractDominantColors s img maxColors sampleStep =
          Some [dequantizeColor (quantizeColor (Some r) (Some g) (Some b) (Some a))])"
proof -
  let ?bytes = "bufs s (img_data img)" and ?w = "img_width img" and ?h = "img_height img"
  let ?ks = "sampledBuckets ?bytes ?w ?h sampleStep"
  let ?H = "foldl bump [] ?ks"
  let ?ranked = "rankBuckets ?ks"
  have ranked: "?ranked = sort_key (\<lambda>e. - snd e) ?H" by (simp add: rankBuckets_def)
  have res: "extractDominantColors s img maxColors sampleStep =
       Some (map dequantizeColor (take (nat maxColors) (map fst ?ranked)))"
    using mc by (simp add: extractDominantColors_def scan_buckets[OF step] slice0_def Let_def take_map
                      rankBuckets_def)
  have distH: "distinct (map fst ?H)" and keysH: "set (map fst ?H) = set ?ks"
    using histogram_inv[of ?ks] by simp_all
  have dist: "distinct (map fst ?ranked)"
    using distH by (simp add: distinct_map ranked)
  have keys: "set (map fst ?ranked) = set ?ks"
    using keysH by (simp add: ranked)
  have cnt: "\<forall>e\<in>set ?ranked. snd e = int (count_list ?ks (fst e))"
    using histogram_entry[of _ ?ks] by (simp add: ranked)
  have ord: "sorted_wrt (ranksBefore ?ks) ?ranked" unfolding ranked by (rule ranked_histogram)
  have "length ?ranked = length (map fst ?H)" by (simp add: ranked)
  also have "\<dots> = card (set (map fst ?H))" using distH by (simp only: distinct_card)
  finally have "length ?ranked = card (set ?ks)" by (simp only: keysH)
  then have len: "length (take (nat maxColors) (map fst ?ranked)) = min (nat maxColors) (card (set ?ks))"
    by (simp add: min.commute)
  have rep: "\<forall>k\<in>set ?ks. case k of (qr, qg, qb, qa) \<Rightarrow>
           0 \<le> qr \<and> qr < 16 \<and> 0 \<le> qg \<and> qg < 16 \<and> 0 \<le> qb \<and> qb < 16 \<and> 0 \<le> qa \<and> qa < 16 \<and>
           dequantizeColor k =
             \<lparr>c_r = push_bit 4 qr OR qr, c_g = push_bit 4 qg OR qg,
              c_b = push_bit 4 qb OR qb, c_a = push_bit 4 qa OR qa\<rparr>"
    using sampledBuckets_range by blast
  have one: "extractDominantColors s img maxColors sampleStep =
          Some [dequantizeColor (quantizeColor (Some r) (Some g) (Some b) (Some a))]"
    if pts: "samplePoints ?w ?h sampleStep \<noteq> []" and m1: "1 \<le> maxColors" and a: "a \<noteq> 0"
      and same: "\<forall>p\<in>set (samplePoints ?w ?h sampleStep).
                   pixelRead ?bytes ?w p = (Some r, Some g, Some b, Some a)"
    for r g b a
  proof -
    let ?k = "quantizeColor (Some r) (Some g) (Some b) (Some a)"
    let ?pts = "samplePoints ?w ?h sampleStep"
    have px: "map (pixelRead ?bytes ?w) ?pts = replicate (length ?pts) (Some r, Some g, Some b, Some a)"
      using same by (intro replicate_eqI) auto
    have "?ks = replicate (length ?pts) ?k"
      using a unfolding sampledBuckets_def px by (simp add: transparent_def)
    then have "set ?ks = {?k}" using pts by simp
    then have "map fst ?ranked = [?k]"
      using dist keys by (intro distinct_singleton_set) simp_all
    moreover have "take (nat maxColors) [?k] = [?k]" using m1 by (cases "nat maxColors") simp_all
    ultimately show ?thesis unfolding res by simp
  qed
  show ?thesis
    using res len dist keys cnt ord rep one by (intro conjI) blast+
qed

text \<open>
  The theorem of C8 at the four-pixel image of the examples, every pixel sampled: the
  red and the near-red pixel share a bucket, the transparent pixel is not counted, the
  blue pixel has a bucket of its own.
\<close>

theorem extractDominantColors_spec_witness:
  "extractDominantColors store0 image0 8 1 =
     Some [\<lparr>c_r = 255, c_g = 0, c_b = 0, c_a = 255\<rparr>, \<lparr>c_r = 0, c_g = 0, c_b = 255, c_a = 255\<rparr>] \<and>
   length (the (extractDominantColors store0 image0 1 1)) = 1"
proof -
  have sc: "scanRows (bufs store0 (img_data image0)) (img_width image0) (img_height image0) 1 0 [] =
      Some (foldl bump [] (sampledBuckets (bufs store0 (img_data image0)) (img_width image0)
                             (img_height image0) 1))"
    by (rule scan_buckets) simp
  have fb: "foldl bump [] (sampledBuckets (bufs store0 (img_data image0)) (img_width image0)
                             (img_height image0) 1) = [((15, 0, 0, 15), 2), ((0, 0, 15, 15), 1)]"
    by code_simp
  have ev: "extractDominantColors store0 image0 8 1 =
     Some [\<lparr>c_r = 255, c_g = 0, c_b = 0, c_a = 255\<rparr>, \<lparr>c_r = 0, c_g = 0, c_b = 255, c_a = 255\<rparr>]"
    unfolding extractDominantColors_def sc fb by code_simp
  have card: "card (set (sampledBuckets (bufs store0 (img_data image0)) (img_width image0)
                           (img_height image0) 1)) = 2"
    by code_simp
  have s1: "(0::int) < 1" and m1: "(0::int) \<le> 1" by simp_all
  note T = extractDominantColors_spec[OF s1 m1, of store0 image0]
  note r1 = T[THEN conjunct1] and r2 = T[THEN conjunct2, THEN conjunct1]
  have "length (the (extractDominantColors store0 image0 1 1)) = 1"
    unfolding r1 option.sel length_map r2 card by simp
  with ev show ?thesis by simp
qed

section \<open>Properties of the map merge\<close>

subsection \<open>Bounds\<close>

lemma boundsLoop_Fin:
  "boundsLoop chunks (Fin a, Fin b, Fin c, Fin d) =
     (Fin (Min (insert a (set (map offsetX chunks)))),
      Fin (Min (insert b (set (map offsetY chunks)))),
      Fin (Max (insert c (set (map (\<lambda>k. offsetX k + tmj_width (tmj k)) chunks)))),
      Fin (Max (insert d (set (map (\<lambda>k. offsetY k + tmj_height (tmj k)) chunks)))))"
proof (induction chunks arbitrary: a b c d)
  case Nil
  then show ?case by simp
next
  case (Cons k chunks)
  have mn: "\<And>x y S. finite S \<Longrightarrow> Min (insert (min x y) S) = Min (insert x (insert y S))"
    by (metis Min_insert Min_singleton finite.insertI insert_not_empty min.assoc)
  have mx: "\<And>x y S. finite S \<Longrightarrow> Max (insert (max x y) S) = Max (insert x (insert y S))"
    by (metis Max_insert Max_singleton finite.insertI insert_not_empty max.assoc)
  show ?case
    by (simp add: Let_def Cons.IH mn mx del: Min_insert Max_insert)
qed

lemma computeBounds_Cons:
  "computeBounds (k # chunks) =
     \<lparr>minX = Fin (Min (set (map offsetX (k # chunks)))),
      minY = Fin (Min (set (map offsetY (k # chunks)))),
      maxX = Fin (Max (set (map (\<lambda>k. offsetX k + tmj_width (tmj k)) (k # chunks)))),
      maxY = Fin (Max (set (map (\<lambda>k. offsetY k + tmj_height (tmj k)) (k # chunks)))),
      b_width = Fin (Max (set (map (\<lambda>k. offsetX k + tmj_width (tmj k)) (k # chunks)))
                     - Min (set (map offsetX (k # chunks)))),
      b_height = Fin (Max (set (map (\<lambda>k. offsetY k + tmj_height (tmj k)) (k # chunks)))
                     - Min (set (map offsetY (k # chunks))))\<rparr>"
  by (simp add: computeBounds_def Let_def boundsLoop_Fin num_sub_def del: Min_insert Max_insert)


text \<open>
  Claim C10.  For the empty list \<open>computeBounds\<close> returns (it has no error to
  raise): both minima are \<^verbatim>\<open>Infinity\<close>, both maxima \<^verbatim>\<open>-Infinity\<close>, and so are
  width and height.  \<open>mergeTmjMaps\<close> tests for the empty list itself, first.
\<close>

theorem computeBounds_empty:
  "computeBounds [] =
     \<lparr>minX = PosInf, minY = PosInf, maxX = NegInf, maxY = NegInf,
      b_width = NegInf, b_height = NegInf\<rparr> \<and>
   mergeTmjMaps [] = Inl (Error ''No maps to merge'')"
  by (simp add: computeBounds_def num_sub_def mergeTmjMaps_def)

lemma tileLayersOf_simps [simp]:
  "tileLayersOf [] = []"
  "tileLayersOf (TileLayer t # ls) = t # tileLayersOf ls"
  "tileLayersOf (ObjectGroup g # ls) = tileLayersOf ls"
  "tileLayersOf (ImageLayer i # ls) = tileLayersOf ls"
  "tileLayersOf (GroupLayer b gl # ls) = tileLayersOf ls"
  by (simp_all add: tileLayersOf_def)

lemma objectGroupsOf_simps [simp]:
  "objectGroupsOf [] = []"
  "objectGroupsOf (ObjectGroup g # ls) = g # objectGroupsOf ls"
  "objectGroupsOf (TileLayer t # ls) = objectGroupsOf ls"
  "objectGroupsOf (ImageLayer i # ls) = objectGroupsOf ls"
  "objectGroupsOf (GroupLayer b gl # ls) = objectGroupsOf ls"
  by (simp_all add: objectGroupsOf_def)

subsection \<open>No loop throws an Error with a message\<close>

lemma cellLoop_no_Error: "cellLoop src b r ox oy cells dest \<noteq> Inl (Error m)"
  by (induction src b r ox oy cells dest rule: cellLoop.induct)
     (auto simp: Let_def split: option.splits)

lemma newArray_no_Error: "newArray n \<noteq> Inl (Error m)"
  by (auto simp: newArray_def split: number.splits)

lemma mergeOneTileLayer_no_Error: "mergeOneTileLayer src b r ox oy i \<noteq> Inl (Error m)"
  using cellLoop_no_Error newArray_no_Error
  by (auto simp: mergeOneTileLayer_def split: sum.splits number.splits)

lemma tileLayerLoop_no_Error: "tileLayerLoop b r ox oy layers st \<noteq> Inl (Error m)"
  by (induction b r ox oy layers st rule: tileLayerLoop.induct)
     (auto simp: mergeOneTileLayer_no_Error split: sum.splits)

lemma tileChunkLoop_no_Error: "tileChunkLoop b rs chunks idx st \<noteq> Inl (Error m)"
  by (induction b rs chunks idx st rule: tileChunkLoop.induct)
     (auto simp: Let_def tileLayerLoop_no_Error split: sum.splits)

lemma mergeTileLayers_no_Error: "mergeTileLayers chunks b rs \<noteq> Inl (Error m)"
  using tileChunkLoop_no_Error by (auto simp: mergeTileLayers_def split: sum.splits)

lemma objectLoop_no_Error: "objectLoop r ox oy objs st \<noteq> Inl (Error m)"
  by (induction r ox oy objs st rule: objectLoop.induct)
     (auto simp: Let_def split: option.splits)

lemma groupLayerLoop_no_Error: "groupLayerLoop r ox oy layers st \<noteq> Inl (Error m)"
  by (induction r ox oy layers st rule: groupLayerLoop.induct)
     (auto simp: objectLoop_no_Error split: sum.splits)

lemma groupChunkLoop_no_Error: "groupChunkLoop b rs tw th chunks idx st \<noteq> Inl (Error m)"
  by (induction b rs tw th chunks idx st rule: groupChunkLoop.induct)
     (auto simp: Let_def groupLayerLoop_no_Error split: sum.splits)

lemma mergeObjectGroups_no_Error: "mergeObjectGroups chunks b rs tw th \<noteq> Inl (Error m)"
  using groupChunkLoop_no_Error by (auto simp: mergeObjectGroups_def split: sum.splits)

subsection \<open>The validation loop\<close>

lemma validateLoop_find:
  "validateLoop tw th cs =
     (case find (\<lambda>c. tmj_tilewidth (tmj c) \<noteq> tw \<or> tmj_tileheight (tmj c) \<noteq> th \<or>
                      tmj_infinite (tmj c) = Some True) cs of
        None \<Rightarrow> None
      | Some c \<Rightarrow>
          Some (if tmj_tilewidth (tmj c) \<noteq> tw \<or> tmj_tileheight (tmj c) \<noteq> th
                then Error ''All maps must use same tilewidth/tileheight''
                else Error ''Infinite maps are not supported in this merger''))"
  by (induction cs) auto

lemma mergeTmjMaps_validated:
  assumes "validateLoop (tmj_tilewidth (tmj c0)) (tmj_tileheight (tmj c0)) (c0 # cs) = None"
  shows "mergeTmjMaps (c0 # cs) \<noteq> Inl (Error m)"
  using assms mergeTileLayers_no_Error mergeObjectGroups_no_Error
  by (auto simp: mergeTmjMaps_def Let_def split: sum.splits prod.splits number.splits)

subsection \<open>Validation\<close>

text \<open>
  Claim C1, as the code has it.  The empty list is refused with the error
  \<^verbatim>\<open>No maps to merge\<close>.  For any other list the chunks are tested in their order,
  each for its tile size first and for \<^verbatim>\<open>infinite\<close> second, and the first chunk
  that fails a test decides the result: the error
  \<^verbatim>\<open>All maps must use same tilewidth/tileheight\<close> when its tile size is not the
  first chunk's, the error \<^verbatim>\<open>Infinite maps are not supported in this merger\<close>
  otherwise.  Either way the result is the error alone, no document.  When no chunk
  fails a test, the merge ends with no such error.  The three errors are values
  \<^verbatim>\<open>Error\<close> that differ in their message.
\<close>

theorem mergeTmjMaps_validation:
  "mergeTmjMaps [] = Inl (Error ''No maps to merge'') \<and>
   (chunks \<noteq> [] \<longrightarrow>
      (case find (\<lambda>c. tmj_tilewidth (tmj c) \<noteq> tmj_tilewidth (tmj (hd chunks)) \<or>
                       tmj_tileheight (tmj c) \<noteq> tmj_tileheight (tmj (hd chunks)) \<or>
                       tmj_infinite (tmj c) = Some True) chunks of
         Some c \<Rightarrow>
           mergeTmjMaps chunks =
             Inl (if tmj_tilewidth (tmj c) \<noteq> tmj_tilewidth (tmj (hd chunks)) \<or>
                     tmj_tileheight (tmj c) \<noteq> tmj_tileheight (tmj (hd chunks))
                  then Error ''All maps must use same tilewidth/tileheight''
                  else Error ''Infinite maps are not supported in this merger'')
       | None \<Rightarrow> (\<forall>m. mergeTmjMaps chunks \<noteq> Inl (Error m)))) \<and>
   distinct [''No maps to merge'', ''All maps must use same tilewidth/tileheight'',
             ''Infinite maps are not supported in this merger'']"
proof -
  have empty: "mergeTmjMaps [] = Inl (Error ''No maps to merge'')"
    by (simp add: mergeTmjMaps_def)
  have msgs: "distinct [''No maps to merge'', ''All maps must use same tilewidth/tileheight'',
             ''Infinite maps are not supported in this merger'']"
    by simp
  have cons: "(case find (\<lambda>c. tmj_tilewidth (tmj c) \<noteq> tmj_tilewidth (tmj (hd chunks)) \<or>
                       tmj_tileheight (tmj c) \<noteq> tmj_tileheight (tmj (hd chunks)) \<or>
                       tmj_infinite (tmj c) = Some True) chunks of
         Some c \<Rightarrow>
           mergeTmjMaps chunks =
             Inl (if tmj_tilewidth (tmj c) \<noteq> tmj_tilewidth (tmj (hd chunks)) \<or>
                     tmj_tileheight (tmj c) \<noteq> tmj_tileheight (tmj (hd chunks))
                  then Error ''All maps must use same tilewidth/tileheight''
                  else Error ''Infinite maps are not supported in this merger'')
       | None \<Rightarrow> (\<forall>m. mergeTmjMaps chunks \<noteq> Inl (Error m)))"
    if ne: "chunks \<noteq> []"
  proof -
    obtain c0 cs where chunks: "chunks = c0 # cs" using ne by (cases chunks) auto
    let ?tw = "tmj_tilewidth (tmj c0)" and ?th = "tmj_tileheight (tmj c0)"
    let ?bad = "\<lambda>c. tmj_tilewidth (tmj c) \<noteq> ?tw \<or> tmj_tileheight (tmj c) \<noteq> ?th \<or>
                     tmj_infinite (tmj c) = Some True"
    show ?thesis
    proof (cases "find ?bad (c0 # cs)")
      case None
      then have "validateLoop ?tw ?th (c0 # cs) = None"
        by (simp only: validateLoop_find option.case)
      then have ok: "\<forall>m. mergeTmjMaps (c0 # cs) \<noteq> Inl (Error m)"
        using mergeTmjMaps_validated by blast
      show ?thesis unfolding chunks list.sel None option.case by (rule ok)
    next
      case (Some c)
      then have v: "validateLoop ?tw ?th (c0 # cs) =
          Some (if tmj_tilewidth (tmj c) \<noteq> ?tw \<or> tmj_tileheight (tmj c) \<noteq> ?th
                then Error ''All maps must use same tilewidth/tileheight''
                else Error ''Infinite maps are not supported in this merger'')"
        by (simp only: validateLoop_find option.case)
      have err: "mergeTmjMaps (c0 # cs) =
          Inl (if tmj_tilewidth (tmj c) \<noteq> ?tw \<or> tmj_tileheight (tmj c) \<noteq> ?th
                then Error ''All maps must use same tilewidth/tileheight''
                else Error ''Infinite maps are not supported in this merger'')"
        unfolding mergeTmjMaps_def list.case Let_def v option.case ..
      show ?thesis unfolding chunks list.sel Some option.case by (rule err)
    qed
  qed
  show ?thesis using empty cons msgs by blast
qed

text \<open>
  Claim C1 as stated asks for the tile-size error whenever some chunk's tile size is
  not the first chunk's.  Here the second chunk's is not, and the merge fails with
  the other error, the first chunk being infinite.
\<close>

theorem mergeTmjMaps_mismatch_counterexample:
  "tmj_tilewidth (tmj ([chunkInfinite, chunkWide] ! 1)) \<noteq> tmj_tilewidth (tmj ([chunkInfinite, chunkWide] ! 0)) \<and>
   mergeTmjMaps [chunkInfinite, chunkWide] = Inl (Error ''Infinite maps are not supported in this merger'') \<and>
   mergeTmjMaps [chunkInfinite, chunkWide] \<noteq> Inl (Error ''All maps must use same tilewidth/tileheight'')"
  by (simp add: mergeTmjMaps_def chunkInfinite_def chunkWide_def exDoc_def)

text \<open>The theorem of C1 at two lists of three chunks.\<close>

theorem mergeTmjMaps_validation_witness:
  "mergeTmjMaps [chunkA, chunkWide, chunkInfinite] = Inl (Error ''All maps must use same tilewidth/tileheight'') \<and>
   mergeTmjMaps [chunkA, chunkInfinite, chunkWide] = Inl (Error ''Infinite maps are not supported in this merger'')"
  using mergeTmjMaps_validation[of "[chunkA, chunkWide, chunkInfinite]"]
        mergeTmjMaps_validation[of "[chunkA, chunkInfinite, chunkWide]"]
  by (simp add: chunkA_def chunkInfinite_def chunkWide_def exDoc_def)


subsection \<open>Identifiers of the merged layers and objects\<close>

lemma seqFrom_0 [simp]: "seqFrom a 0 = []"
  by (simp add: seqFrom_def)

lemma seqFrom_Suc: "seqFrom a (Suc n) = a # seqFrom (a + 1) n"
proof -
  have "[0..<Suc n] = 0 # map Suc [0..<n]"
    by (simp add: upt_conv_Cons map_Suc_upt del: upt_Suc)
  then show ?thesis by (simp add: seqFrom_def comp_def add.assoc del: upt_Suc)
qed

lemma seqFrom_add: "seqFrom a (m + n) = seqFrom a m @ seqFrom (a + int m) n"
proof (induction m arbitrary: a)
  case 0
  then show ?case by simp
next
  case (Suc m)
  have "seqFrom a (Suc m + n) = a # seqFrom (a + 1) (m + n)"
    by (simp add: seqFrom_Suc)
  also have "\<dots> = a # seqFrom (a + 1) m @ seqFrom (a + 1 + int m) n"
    by (simp add: Suc.IH)
  also have "seqFrom (a + 1 + int m) n = seqFrom (a + int (Suc m)) n"
    by (rule arg_cong[where f = "\<lambda>x. seqFrom x n"]) simp
  finally show ?case by (simp add: seqFrom_Suc)
qed

lemma length_seqFrom [simp]: "length (seqFrom a n) = n"
  by (simp add: seqFrom_def)

lemma mergeOneTileLayer_id:
  "mergeOneTileLayer src b r ox oy i = Inr dest \<Longrightarrow> l_id dest = i"
  by (auto simp: mergeOneTileLayer_def split: sum.splits number.splits)

lemma tileLayerLoop_result:
  "tileLayerLoop b r ox oy layers (ml, n) = Inr (ml', n') \<Longrightarrow>
   \<exists>new. ml' = ml @ new \<and> length new = length (tileLayersOf layers) \<and>
         n' = n + int (length new) \<and>
         (\<forall>k<length new.
            mergeOneTileLayer (tileLayersOf layers ! k) b r ox oy (n + int k) = Inr (new ! k))"
proof (induction layers arbitrary: ml n)
  case Nil
  then show ?case by simp
next
  case (Cons l layers)
  show ?case
  proof (cases l)
    case (TileLayer src)
    from Cons.prems TileLayer obtain dest where
      one: "mergeOneTileLayer src b r ox oy n = Inr dest" and
      rest: "tileLayerLoop b r ox oy layers (ml @ [dest], n + 1) = Inr (ml', n')"
      by (auto split: sum.splits)
    from Cons.IH[OF rest] obtain new where new:
      "ml' = (ml @ [dest]) @ new" "length new = length (tileLayersOf layers)"
      "n' = n + 1 + int (length new)"
      "\<forall>k<length new.
         mergeOneTileLayer (tileLayersOf layers ! k) b r ox oy (n + 1 + int k) = Inr (new ! k)"
      by blast
    have "\<forall>k<length (dest # new).
            mergeOneTileLayer (tileLayersOf (l # layers) ! k) b r ox oy (n + int k)
              = Inr ((dest # new) ! k)"
    proof (intro allI impI)
      fix k assume "k < length (dest # new)"
      show "mergeOneTileLayer (tileLayersOf (l # layers) ! k) b r ox oy (n + int k)
              = Inr ((dest # new) ! k)"
      proof (cases k)
        case 0
        then show ?thesis using one TileLayer by simp
      next
        case (Suc j)
        then have j: "j < length new" using \<open>k < length (dest # new)\<close> by simp
        have eq: "n + int (Suc j) = n + 1 + int j" by simp
        show ?thesis
          unfolding Suc eq using new(4)[rule_format, OF j] TileLayer by simp
      qed
    qed
    then show ?thesis
      using new TileLayer by (intro exI[of _ "dest # new"]) auto
  next
    case (ObjectGroup g)
    with Cons show ?thesis by simp
  next
    case (ImageLayer i)
    with Cons show ?thesis by simp
  next
    case (GroupLayer gb gl)
    with Cons show ?thesis by simp
  qed
qed

lemma tileChunkLoop_result:
  "tileChunkLoop b rs chunks idx (ml, n) = Inr (ml', n') \<Longrightarrow>
   \<exists>new. ml' = ml @ new \<and> length new = length (tileSourcesFrom idx chunks) \<and>
         n' = n + int (length new) \<and>
         (\<forall>k<length new.
            case tileSourcesFrom idx chunks ! k of
              (i, c, src) \<Rightarrow>
                mergeOneTileLayer src b (nth_opt rs i)
                  (num_sub (Fin (offsetX c)) (minX b)) (num_sub (Fin (offsetY c)) (minY b))
                  (n + int k) = Inr (new ! k))"
proof (induction chunks arbitrary: idx ml n)
  case Nil
  then show ?case by simp
next
  case (Cons c chunks)
  let ?ox = "num_sub (Fin (offsetX c)) (minX b)" and ?oy = "num_sub (Fin (offsetY c)) (minY b)"
  let ?tls = "tileLayersOf (tmj_layers (tmj c))"
  from Cons.prems obtain ml1 n1 where
    first: "tileLayerLoop b (nth_opt rs idx) ?ox ?oy (tmj_layers (tmj c)) (ml, n) = Inr (ml1, n1)" and
    rest: "tileChunkLoop b rs chunks (Suc idx) (ml1, n1) = Inr (ml', n')"
    by (auto simp: Let_def split: sum.splits)
  from tileLayerLoop_result[OF first] obtain new1 where new1:
    "ml1 = ml @ new1" "length new1 = length ?tls" "n1 = n + int (length new1)"
    "\<forall>k<length new1. mergeOneTileLayer (?tls ! k) b (nth_opt rs idx) ?ox ?oy (n + int k) = Inr (new1 ! k)"
    by blast
  from Cons.IH[OF rest] obtain new2 where new2:
    "ml' = ml1 @ new2" "length new2 = length (tileSourcesFrom (Suc idx) chunks)"
    "n' = n1 + int (length new2)"
    "\<forall>k<length new2.
       case tileSourcesFrom (Suc idx) chunks ! k of
         (i, c, src) \<Rightarrow>
           mergeOneTileLayer src b (nth_opt rs i)
             (num_sub (Fin (offsetX c)) (minX b)) (num_sub (Fin (offsetY c)) (minY b))
             (n1 + int k) = Inr (new2 ! k)"
    by blast
  have each: "case tileSourcesFrom idx (c # chunks) ! k of
         (i, c, src) \<Rightarrow>
           mergeOneTileLayer src b (nth_opt rs i)
             (num_sub (Fin (offsetX c)) (minX b)) (num_sub (Fin (offsetY c)) (minY b))
             (n + int k) = Inr ((new1 @ new2) ! k)"
    if k: "k < length (new1 @ new2)" for k
  proof (cases "k < length new1")
    case True
    then show ?thesis using new1(2,4) by (simp add: nth_append)
  next
    case False
    then have k2: "k - length new1 < length new2" using k by simp
    have eq: "n1 + int (k - length new1) = n + int k" using False new1(3) by simp
    have "case tileSourcesFrom (Suc idx) chunks ! (k - length new1) of
         (i, c, src) \<Rightarrow>
           mergeOneTileLayer src b (nth_opt rs i)
             (num_sub (Fin (offsetX c)) (minX b)) (num_sub (Fin (offsetY c)) (minY b))
             (n + int k) = Inr (new2 ! (k - length new1))"
      using new2(4)[rule_format, OF k2] unfolding eq .
    then show ?thesis
      using False new1(2) by (simp add: nth_append)
  qed
  show ?case
    using new1 new2 each by (intro exI[of _ "new1 @ new2"]) auto
qed

lemma mergeTileLayers_result:
  assumes "mergeTileLayers chunks b rs = Inr out"
  shows "length out = length (tileSourcesFrom 0 chunks) \<and>
         (\<forall>k<length out.
            case tileSourcesFrom 0 chunks ! k of
              (i, c, src) \<Rightarrow>
                mergeOneTileLayer src b (nth_opt rs i)
                  (num_sub (Fin (offsetX c)) (minX b)) (num_sub (Fin (offsetY c)) (minY b))
                  (1 + int k) = Inr (out ! k))"
proof -
  from assms obtain n' where "tileChunkLoop b rs chunks 0 ([], 1) = Inr (out, n')"
    by (auto simp: mergeTileLayers_def split: sum.splits)
  from tileChunkLoop_result[OF this] show ?thesis by auto
qed

lemma mergeTileLayers_ids:
  assumes "mergeTileLayers chunks b rs = Inr out"
  shows "map l_id out = seqFrom 1 (length out)"
proof (rule nth_equalityI)
  show "length (map l_id out) = length (seqFrom 1 (length out))" by simp
next
  fix k assume "k < length (map l_id out)"
  then have k: "k < length out" by simp
  obtain i c src where s: "tileSourcesFrom 0 chunks ! k = (i, c, src)"
    by (cases "tileSourcesFrom 0 chunks ! k") auto
  from mergeTileLayers_result[OF assms] k s
  have "mergeOneTileLayer src b (nth_opt rs i)
          (num_sub (Fin (offsetX c)) (minX b)) (num_sub (Fin (offsetY c)) (minY b))
          (1 + int k) = Inr (out ! k)" by auto
  then have "l_id (out ! k) = 1 + int k" by (rule mergeOneTileLayer_id)
  then show "map l_id out ! k = seqFrom 1 (length out) ! k"
    using k by (simp add: seqFrom_def)
qed

lemma objectLoop_result:
  "objectLoop r ox oy objs (dst, n) = Inr (dst', n') \<Longrightarrow>
   \<exists>new. dst' = dst @ new \<and> length new = length objs \<and> n' = n + int (length objs) \<and>
         map o_id new = seqFrom n (length objs)"
proof (induction objs arbitrary: dst n)
  case Nil
  then show ?case by simp
next
  case (Cons obj objs)
  from Cons.prems obtain newObj where
    rest: "objectLoop r ox oy objs (dst @ [newObj], n + 1) = Inr (dst', n')" and
    oid: "o_id newObj = n"
    by (auto simp: Let_def split: option.splits)
  from Cons.IH[OF rest] obtain new where new:
    "dst' = (dst @ [newObj]) @ new" "length new = length objs" "n' = n + 1 + int (length objs)"
    "map o_id new = seqFrom (n + 1) (length objs)"
    by blast
  show ?case
    using new oid by (intro exI[of _ "newObj # new"]) (simp add: seqFrom_Suc)
qed

lemma groupLayerLoop_result:
  "groupLayerLoop r ox oy layers (mg, g, ob) = Inr (mg', g', ob') \<Longrightarrow>
   \<exists>new. mg' = mg @ new \<and> length new = length (objectGroupsOf layers) \<and>
         g' = g + int (length new) \<and> map l_id new = seqFrom g (length new) \<and>
         map (\<lambda>x. length (og_objects x)) new =
           map (\<lambda>x. length (og_objects x)) (objectGroupsOf layers) \<and>
         map o_id (concat (map og_objects new)) =
           seqFrom ob (length (concat (map og_objects new))) \<and>
         ob' = ob + int (length (concat (map og_objects new)))"
proof (induction layers arbitrary: mg g ob)
  case Nil
  then show ?case by simp
next
  case (Cons l layers)
  show ?case
  proof (cases l)
    case (ObjectGroup src)
    from Cons.prems ObjectGroup obtain objs ob1 where
      one: "objectLoop r ox oy (og_objects src) ([], ob) = Inr (objs, ob1)" and
      rest: "groupLayerLoop r ox oy layers
               (mg @ [src\<lparr>l_id := g, og_objects := objs\<rparr>], g + 1, ob1) = Inr (mg', g', ob')"
      by (auto split: sum.splits)
    from objectLoop_result[OF one] have objs:
      "length objs = length (og_objects src)" "ob1 = ob + int (length objs)"
      "map o_id objs = seqFrom ob (length objs)"
      by auto
    let ?d = "src\<lparr>l_id := g, og_objects := objs\<rparr>"
    from Cons.IH[OF rest] obtain new where new:
      "mg' = (mg @ [?d]) @ new" "length new = length (objectGroupsOf layers)"
      "g' = g + 1 + int (length new)" "map l_id new = seqFrom (g + 1) (length new)"
      "map (\<lambda>x. length (og_objects x)) new =
         map (\<lambda>x. length (og_objects x)) (objectGroupsOf layers)"
      "map o_id (concat (map og_objects new)) =
         seqFrom ob1 (length (concat (map og_objects new)))"
      "ob' = ob1 + int (length (concat (map og_objects new)))"
      by blast
    have ids: "map o_id (concat (map og_objects (?d # new))) =
               seqFrom ob (length (concat (map og_objects (?d # new))))"
      using objs new(6) by (simp add: seqFrom_add)
    have cnt: "ob' = ob + int (length (concat (map og_objects (?d # new))))"
      using objs new(7) by simp
    show ?thesis
      using new(1-5) ids cnt objs(1) ObjectGroup
      by (intro exI[of _ "?d # new"]) (simp add: seqFrom_Suc)
  next
    case (TileLayer t)
    with Cons show ?thesis by simp
  next
    case (ImageLayer i)
    with Cons show ?thesis by simp
  next
    case (GroupLayer gb gl)
    with Cons show ?thesis by simp
  qed
qed

lemma groupChunkLoop_result:
  "groupChunkLoop b rs tw th chunks idx (mg, g, ob) = Inr (mg', g', ob') \<Longrightarrow>
   \<exists>new. mg' = mg @ new \<and> length new = length (groupSources chunks) \<and>
         g' = g + int (length new) \<and> map l_id new = seqFrom g (length new) \<and>
         map (\<lambda>x. length (og_objects x)) new =
           map (\<lambda>x. length (og_objects x)) (groupSources chunks) \<and>
         map o_id (concat (map og_objects new)) =
           seqFrom ob (length (concat (map og_objects new))) \<and>
         ob' = ob + int (length (concat (map og_objects new)))"
proof (induction chunks arbitrary: idx mg g ob)
  case Nil
  then show ?case by (simp add: groupSources_def)
next
  case (Cons c chunks)
  from Cons.prems obtain mg1 g1 ob1 where
    first: "groupLayerLoop (nth_opt rs idx)
              (num_mul (num_sub (Fin (offsetX c)) (minX b)) (Fin tw))
              (num_mul (num_sub (Fin (offsetY c)) (minY b)) (Fin th))
              (tmj_layers (tmj c)) (mg, g, ob) = Inr (mg1, g1, ob1)" and
    rest: "groupChunkLoop b rs tw th chunks (Suc idx) (mg1, g1, ob1) = Inr (mg', g', ob')"
    by (auto simp: Let_def split: sum.splits)
  from groupLayerLoop_result[OF first] obtain new1 where new1:
    "mg1 = mg @ new1" "length new1 = length (objectGroupsOf (tmj_layers (tmj c)))"
    "g1 = g + int (length new1)" "map l_id new1 = seqFrom g (length new1)"
    "map (\<lambda>x. length (og_objects x)) new1 =
       map (\<lambda>x. length (og_objects x)) (objectGroupsOf (tmj_layers (tmj c)))"
    "map o_id (concat (map og_objects new1)) = seqFrom ob (length (concat (map og_objects new1)))"
    "ob1 = ob + int (length (concat (map og_objects new1)))"
    by blast
  from Cons.IH[OF rest] obtain new2 where new2:
    "mg' = mg1 @ new2" "length new2 = length (groupSources chunks)"
    "g' = g1 + int (length new2)" "map l_id new2 = seqFrom g1 (length new2)"
    "map (\<lambda>x. length (og_objects x)) new2 =
       map (\<lambda>x. length (og_objects x)) (groupSources chunks)"
    "map o_id (concat (map og_objects new2)) = seqFrom ob1 (length (concat (map og_objects new2)))"
    "ob' = ob1 + int (length (concat (map og_objects new2)))"
    by blast
  show ?case
    using new1 new2
    by (intro exI[of _ "new1 @ new2"]) (simp add: seqFrom_add groupSources_def)
qed

lemma mergeObjectGroups_result:
  assumes "mergeObjectGroups chunks b rs tw th = Inr out"
  shows "length out = length (groupSources chunks) \<and>
         map l_id out = seqFrom 1 (length out) \<and>
         map (\<lambda>x. length (og_objects x)) out =
           map (\<lambda>x. length (og_objects x)) (groupSources chunks) \<and>
         map o_id (concat (map og_objects out)) =
           seqFrom 1 (length (concat (map og_objects out)))"
proof -
  from assms obtain g' ob' where "groupChunkLoop b rs tw th chunks 0 ([], 1, 1) = Inr (out, g', ob')"
    by (auto simp: mergeObjectGroups_def split: sum.splits)
  from groupChunkLoop_result[OF this] show ?thesis by auto
qed

lemma tileLayersOf_merged [simp]:
  "tileLayersOf (map TileLayer ts @ map ObjectGroup gs) = ts"
  by (induction ts) (simp_all add: tileLayersOf_def)

lemma objectGroupsOf_merged [simp]:
  "objectGroupsOf (map TileLayer ts @ map ObjectGroup gs) = gs"
proof (induction ts)
  case Nil
  show ?case by (induction gs) simp_all
next
  case (Cons t ts)
  then show ?case by simp
qed

lemma mergeTmjMaps_Inr:
  assumes "mergeTmjMaps chunks = Inr merged"
  shows "\<exists>c0 cs tls ogs w h.
           chunks = c0 # cs \<and>
           validateLoop (tmj_tilewidth (tmj c0)) (tmj_tileheight (tmj c0)) chunks = None \<and>
           mergeTileLayers chunks (computeBounds chunks) (snd (mergeTilesets chunks)) = Inr tls \<and>
           mergeObjectGroups chunks (computeBounds chunks) (snd (mergeTilesets chunks))
             (tmj_tilewidth (tmj c0)) (tmj_tileheight (tmj c0)) = Inr ogs \<and>
           b_width (computeBounds chunks) = Fin w \<and> b_height (computeBounds chunks) = Fin h \<and>
           merged = (tmj c0)\<lparr>tmj_width := w, tmj_height := h,
                      tmj_layers := map TileLayer tls @ map ObjectGroup ogs,
                      tmj_tilesets := fst (mergeTilesets chunks)\<rparr>"
  using assms
  by (auto simp: mergeTmjMaps_def Let_def
           split: list.splits option.splits sum.splits prod.splits number.splits)

text \<open>
  Claim C6, as the code has it.  In the merged document the tile layers come first
  and the object groups after them, one for every tile layer and one for every object
  group of the chunks.  The tile layers are numbered \<open>1, 2, ...\<close> in their order.
  The object groups are numbered \<open>1, 2, ...\<close> in their order too, from a counter of
  their own.  Every group keeps the number of its objects, and the objects of all
  groups, taken in order, are numbered \<open>1, 2, ...\<close>.
\<close>

theorem mergeTmjMaps_ids:
  assumes "mergeTmjMaps chunks = Inr merged"
  shows "tmj_layers merged =
           map TileLayer (tileLayersOf (tmj_layers merged)) @
           map ObjectGroup (objectGroupsOf (tmj_layers merged)) \<and>
         length (tileLayersOf (tmj_layers merged)) = length (tileSourcesFrom 0 chunks) \<and>
         map l_id (tileLayersOf (tmj_layers merged)) =
           seqFrom 1 (length (tileLayersOf (tmj_layers merged))) \<and>
         length (objectGroupsOf (tmj_layers merged)) = length (groupSources chunks) \<and>
         map l_id (objectGroupsOf (tmj_layers merged)) =
           seqFrom 1 (length (objectGroupsOf (tmj_layers merged))) \<and>
         map (\<lambda>g. length (og_objects g)) (objectGroupsOf (tmj_layers merged)) =
           map (\<lambda>g. length (og_objects g)) (groupSources chunks) \<and>
         map o_id (concat (map og_objects (objectGroupsOf (tmj_layers merged)))) =
           seqFrom 1 (length (concat (map og_objects (objectGroupsOf (tmj_layers merged)))))"
proof -
  from mergeTmjMaps_Inr[OF assms] obtain c0 cs tls ogs w h where all:
    "chunks = c0 # cs \<and>
     validateLoop (tmj_tilewidth (tmj c0)) (tmj_tileheight (tmj c0)) chunks = None \<and>
     mergeTileLayers chunks (computeBounds chunks) (snd (mergeTilesets chunks)) = Inr tls \<and>
     mergeObjectGroups chunks (computeBounds chunks) (snd (mergeTilesets chunks))
       (tmj_tilewidth (tmj c0)) (tmj_tileheight (tmj c0)) = Inr ogs \<and>
     b_width (computeBounds chunks) = Fin w \<and> b_height (computeBounds chunks) = Fin h \<and>
     merged = (tmj c0)\<lparr>tmj_width := w, tmj_height := h,
                tmj_layers := map TileLayer tls @ map ObjectGroup ogs,
                tmj_tilesets := fst (mergeTilesets chunks)\<rparr>"
    by (elim exE)
  from all have
    tls: "mergeTileLayers chunks (computeBounds chunks) (snd (mergeTilesets chunks)) = Inr tls" and
    ogs: "mergeObjectGroups chunks (computeBounds chunks) (snd (mergeTilesets chunks))
             (tmj_tilewidth (tmj c0)) (tmj_tileheight (tmj c0)) = Inr ogs" and
    merged: "merged = (tmj c0)\<lparr>tmj_width := w, tmj_height := h,
                      tmj_layers := map TileLayer tls @ map ObjectGroup ogs,
                      tmj_tilesets := fst (mergeTilesets chunks)\<rparr>"
    by blast+
  have layers: "tmj_layers merged = map TileLayer tls @ map ObjectGroup ogs"
    by (simp add: merged)
  show ?thesis
    unfolding layers tileLayersOf_merged objectGroupsOf_merged
    using mergeTileLayers_result[OF tls] mergeTileLayers_ids[OF tls] mergeObjectGroups_result[OF ogs]
    by simp
qed

text \<open>
  Claim C6 as stated numbers all layers of the merged document \<open>1, 2, ...\<close>.  A
  single chunk with one tile layer and one object group gives two layers, both
  numbered \<open>1\<close>.
\<close>

theorem mergeTmjMaps_ids_counterexample:
  "(case mergeTmjMaps [chunkA] of
      Inr merged \<Rightarrow> map layerId (tmj_layers merged) = [1, 1] \<and>
                    map layerId (tmj_layers merged) \<noteq> seqFrom 1 (length (tmj_layers merged))
    | Inl e \<Rightarrow> False)"
  by code_simp

text \<open>The theorem of C6 at the two chunks, each with a tile layer and a group of two objects.\<close>

theorem mergeTmjMaps_ids_witness:
  "map l_id (tileLayersOf (tmj_layers (projr (mergeTmjMaps [chunkA, chunkB])))) = [1, 2] \<and>
   map l_id (objectGroupsOf (tmj_layers (projr (mergeTmjMaps [chunkA, chunkB])))) = [1, 2] \<and>
   map o_id (concat (map og_objects
      (objectGroupsOf (tmj_layers (projr (mergeTmjMaps [chunkA, chunkB])))))) = [1, 2, 3, 4]"
proof -
  let ?m = "mergeTmjMaps [chunkA, chunkB]"
  have "\<not> isl ?m" by code_simp
  then have run: "?m = Inr (projr ?m)" by simp
  have n1: "length (tileSourcesFrom 0 [chunkA, chunkB]) = 2" by code_simp
  have n2: "map (\<lambda>g. length (og_objects g)) (groupSources [chunkA, chunkB]) = [2, 2]" by code_simp
  have s2: "seqFrom 1 2 = [1, 2]" and s4: "seqFrom 1 4 = [1, 2, 3, 4]" by code_simp+
  note T = mergeTmjMaps_ids[OF run]
  let ?gs = "objectGroupsOf (tmj_layers (projr ?m))"
  have lg: "length ?gs = 2"
    using T n2 by (metis length_map length_Cons list.size(3) numeral_2_eq_2)
  have "length (concat (map og_objects ?gs)) = sum_list (map (\<lambda>g. length (og_objects g)) ?gs)"
    by (simp add: length_concat comp_def)
  also have "\<dots> = 4" using T n2 by simp
  finally have lo: "length (concat (map og_objects ?gs)) = 4" .
  show ?thesis using T n1 lg lo s2 s4 by simp
qed

subsection \<open>Tilesets\<close>

lemma remapLoop_closed:
  "0 \<le> local \<Longrightarrow>
   remapLoop old new cnt local m =
     (\<lambda>gid. if old + local \<le> gid \<and> gid < old + cnt then Some (new + (gid - old)) else m gid)"
proof (induction old new cnt local m rule: remapLoop.induct)
  case (1 old new cnt local m)
  show ?case
  proof (cases "local < cnt")
    case True
    have "remapLoop old new cnt local m =
          remapLoop old new cnt (local + 1) (m(old + local \<mapsto> new + local))"
      using True by (subst remapLoop.simps) simp
    also have "\<dots> = (\<lambda>gid. if old + (local + 1) \<le> gid \<and> gid < old + cnt
                          then Some (new + (gid - old))
                          else (m(old + local \<mapsto> new + local)) gid)"
    proof (rule "1.IH"[OF True])
      show "0 \<le> local + 1" using "1.prems" by simp
    qed
    also have "\<dots> = (\<lambda>gid. if old + local \<le> gid \<and> gid < old + cnt
                          then Some (new + (gid - old)) else m gid)"
      using True by (auto simp: fun_eq_iff)
    finally show ?thesis .
  next
    case False
    then show ?thesis by (subst remapLoop.simps) (auto simp: fun_eq_iff)
  qed
qed

lemma remapLoop_fillRange:
  "remapLoop (ts_firstgid ts) new (tileCountOf ts) 0 m = fillRange new ts m"
  by (simp add: remapLoop_closed fillRange_def covers_def)

lemma tilesetKey_firstgid [simp]: "tilesetKey (ts\<lparr>ts_firstgid := n\<rparr>) = tilesetKey ts"
  by (simp add: tilesetKey_def)

lemma tileCountOf_firstgid [simp]: "tileCountOf (ts\<lparr>ts_firstgid := n\<rparr>) = tileCountOf ts"
  by (simp add: tileCountOf_def)

lemma globalFirstGid_nth:
  assumes "distinct (map tilesetKey gts)" "i < length gts"
  shows "globalFirstGid gts (tilesetKey (gts ! i)) = ts_firstgid (gts ! i)"
  using assms
proof (induction gts arbitrary: i)
  case Nil
  then show ?case by simp
next
  case (Cons g gts)
  show ?case
  proof (cases i)
    case 0
    then show ?thesis by (simp add: globalFirstGid_def)
  next
    case (Suc j)
    then have j: "j < length gts" using Cons.prems by simp
    then have "tilesetKey (gts ! j) \<in> set (map tilesetKey gts)" by simp
    then have ne: "tilesetKey g \<noteq> tilesetKey (gts ! j)" using Cons.prems(1) by auto
    have "globalFirstGid gts (tilesetKey (gts ! j)) = ts_firstgid (gts ! j)"
      using Cons.prems(1) j by (intro Cons.IH) simp_all
    then show ?thesis using Suc ne by (simp add: globalFirstGid_def)
  qed
qed

lemma globalFirstGid_append:
  "k \<in> set (map tilesetKey gts) \<Longrightarrow> globalFirstGid (gts @ gts2) k = globalFirstGid gts k"
proof (induction gts)
  case Nil
  then show ?case by simp
next
  case (Cons g gts)
  then show ?case by (cases "tilesetKey g = k") (auto simp: globalFirstGid_def)
qed

lemma globalFirstGid_snoc_new:
  "k \<notin> set (map tilesetKey gts) \<Longrightarrow> tilesetKey g = k \<Longrightarrow>
   globalFirstGid (gts @ [g]) k = ts_firstgid g"
proof (induction gts)
  case Nil
  then show ?case by (simp add: globalFirstGid_def)
next
  case (Cons a gts)
  then show ?case by (auto simp: globalFirstGid_def)
qed

lemma tilesetStep_spec:
  assumes inv: "tilesetInv st"
  shows "globalTilesets (tilesetStep i st ts) = dedupStep (globalTilesets st) ts \<and>
         tilesetInv (tilesetStep i st ts) \<and>
         gidRemaps (tilesetStep i st ts) =
           (gidRemaps st)[i := fillRange (globalFirstGid (dedupStep (globalTilesets st) ts)
                                            (tilesetKey ts)) ts (gidRemaps st ! i)]"
proof (cases "tilesetKeyToGlobalIndex st (tilesetKey ts)")
  case None
  let ?G = "globalTilesets st"
  let ?new = "ts\<lparr>ts_firstgid := nextFirstGid st\<rparr>"
  have fresh: "tilesetKey ts \<notin> set (map tilesetKey ?G)"
    using inv None unfolding tilesetInv_def by force
  have nxt: "nextFirstGid st = 1 + sum_list (map tileCountOf ?G)"
    using inv unfolding tilesetInv_def by simp
  have step: "tilesetStep i st ts =
      st\<lparr>globalTilesets := ?G @ [?new],
         tilesetKeyToGlobalIndex := (tilesetKeyToGlobalIndex st)(tilesetKey ts \<mapsto> length ?G),
         nextFirstGid := nextFirstGid st + tileCountOf ts,
         gidRemaps := (gidRemaps st)[i := fillRange (nextFirstGid st) ts (gidRemaps st ! i)]\<rparr>"
    using None by (simp add: tilesetStep_def Let_def remapLoop_fillRange)
  have dd: "dedupStep ?G ts = ?G @ [?new]"
    using fresh nxt by (simp add: dedupStep_def)
  have gf: "globalFirstGid (?G @ [?new]) (tilesetKey ts) = nextFirstGid st"
    using globalFirstGid_snoc_new[OF fresh, of ?new] by simp
  let ?K = "tilesetKeyToGlobalIndex st"
  have old_idx: "\<And>k j. ?K k = Some j \<Longrightarrow> j < length ?G \<and> tilesetKey (?G ! j) = k"
    using inv unfolding tilesetInv_def by blast
  have old_dom: "\<And>g. g \<in> set ?G \<Longrightarrow> ?K (tilesetKey g) \<noteq> None"
    using inv unfolding tilesetInv_def by blast
  have old_dist: "distinct (map tilesetKey ?G)"
    using inv unfolding tilesetInv_def by blast
  have idx': "j < length (?G @ [?new]) \<and> tilesetKey ((?G @ [?new]) ! j) = k"
    if "(?K(tilesetKey ts \<mapsto> length ?G)) k = Some j" for k j
  proof (cases "k = tilesetKey ts")
    case True
    then have "j = length ?G" using that by simp
    then show ?thesis using True by simp
  next
    case False
    then have "?K k = Some j" using that by simp
    from old_idx[OF this] show ?thesis by (simp add: nth_append)
  qed
  have dom': "(?K(tilesetKey ts \<mapsto> length ?G)) (tilesetKey g) \<noteq> None"
    if "g \<in> set (?G @ [?new])" for g
    using that old_dom by (cases "tilesetKey g = tilesetKey ts") auto
  have dist': "distinct (map tilesetKey (?G @ [?new]))"
    using old_dist fresh by simp
  have nxt': "nextFirstGid st + tileCountOf ts = 1 + sum_list (map tileCountOf (?G @ [?new]))"
    using nxt by simp
  have inv': "tilesetInv (tilesetStep i st ts)"
    unfolding step tilesetInv_def
    using idx' dom' dist' nxt' by simp
  show ?thesis using step dd gf inv' by simp
next
  case (Some gi)
  let ?G = "globalTilesets st"
  have gi: "gi < length ?G" "tilesetKey (?G ! gi) = tilesetKey ts"
    using inv Some unfolding tilesetInv_def by blast+
  have dist: "distinct (map tilesetKey ?G)" using inv unfolding tilesetInv_def by simp
  have seen: "tilesetKey ts \<in> set (map tilesetKey ?G)"
    using gi by (metis length_map nth_map nth_mem)
  have step: "tilesetStep i st ts =
      st\<lparr>gidRemaps := (gidRemaps st)[i := fillRange (ts_firstgid (?G ! gi)) ts (gidRemaps st ! i)]\<rparr>"
    using Some by (simp add: tilesetStep_def Let_def remapLoop_fillRange)
  have dd: "dedupStep ?G ts = ?G" using seen by (simp add: dedupStep_def)
  have gf: "globalFirstGid ?G (tilesetKey ts) = ts_firstgid (?G ! gi)"
    using globalFirstGid_nth[OF dist gi(1)] gi(2) by simp
  have inv': "tilesetInv (tilesetStep i st ts)"
    unfolding step using inv unfolding tilesetInv_def by simp
  show ?thesis using step dd gf inv' by simp
qed

lemma keys_dedupStep:
  "set (map tilesetKey (dedupStep gts ts)) = insert (tilesetKey ts) (set (map tilesetKey gts))"
  by (auto simp: dedupStep_def)

lemma keys_foldl_dedupStep:
  "set (map tilesetKey (foldl dedupStep gts tss)) =
   set (map tilesetKey gts) \<union> set (map tilesetKey tss)"
proof (induction tss arbitrary: gts)
  case Nil
  then show ?case by simp
next
  case (Cons ts tss)
  show ?case unfolding foldl_Cons Cons.IH keys_dedupStep by auto
qed

lemma dedupStep_extends: "\<exists>e. dedupStep gts ts = gts @ e"
  by (simp add: dedupStep_def)

lemma foldl_dedupStep_extends: "\<exists>e. foldl dedupStep gts tss = gts @ e"
proof (induction tss arbitrary: gts)
  case Nil
  then show ?case by simp
next
  case (Cons ts tss)
  obtain e1 where e1: "dedupStep gts ts = gts @ e1" using dedupStep_extends by blast
  obtain e2 where "foldl dedupStep (gts @ e1) tss = (gts @ e1) @ e2" using Cons.IH by blast
  then show ?case using e1 by simp
qed

lemma fillAll_extend:
  "set (map tilesetKey tss) \<subseteq> set (map tilesetKey gts) \<Longrightarrow>
   fillAll (gts @ e) m tss = fillAll gts m tss"
proof (induction tss arbitrary: m)
  case Nil
  then show ?case by (simp add: fillAll_def)
next
  case (Cons ts tss)
  have k: "tilesetKey ts \<in> set (map tilesetKey gts)" using Cons.prems by simp
  have r: "set (map tilesetKey tss) \<subseteq> set (map tilesetKey gts)" using Cons.prems by simp
  show ?case
    using Cons.IH[OF r] by (simp add: fillAll_def globalFirstGid_append[OF k])
qed

lemma fillAll_snoc:
  "fillAll gts m (tss @ [ts]) = fillRange (globalFirstGid gts (tilesetKey ts)) ts (fillAll gts m tss)"
  by (simp add: fillAll_def)

lemma foldl_tilesetStep_spec:
  assumes inv: "tilesetInv st"
  shows "tilesetInv (foldl (tilesetStep i) st tss) \<and>
         globalTilesets (foldl (tilesetStep i) st tss) = foldl dedupStep (globalTilesets st) tss \<and>
         gidRemaps (foldl (tilesetStep i) st tss) =
           (gidRemaps st)[i := fillAll (foldl dedupStep (globalTilesets st) tss)
                                  (gidRemaps st ! i) tss]"
proof (induction tss rule: rev_induct)
  case Nil
  show ?case using inv by (simp add: fillAll_def)
next
  case (snoc ts tss)
  let ?mid = "foldl (tilesetStep i) st tss"
  let ?G = "foldl dedupStep (globalTilesets st) tss"
  let ?G' = "dedupStep ?G ts"
  from snoc have mid: "tilesetInv ?mid" "globalTilesets ?mid = ?G"
    "gidRemaps ?mid = (gidRemaps st)[i := fillAll ?G (gidRemaps st ! i) tss]"
    by simp_all
  note step = tilesetStep_spec[OF mid(1), of i ts]
  obtain e where e: "?G' = ?G @ e" using dedupStep_extends by blast
  have sub: "set (map tilesetKey tss) \<subseteq> set (map tilesetKey ?G)"
    unfolding keys_foldl_dedupStep by blast
  have stable: "fillAll ?G' (gidRemaps st ! i) tss = fillAll ?G (gidRemaps st ! i) tss"
    unfolding e using sub by (rule fillAll_extend)
  have remaps: "gidRemaps (tilesetStep i ?mid ts) =
        (gidRemaps st)[i := fillAll ?G' (gidRemaps st ! i) (tss @ [ts])]"
  proof (cases "i < length (gidRemaps st)")
    case True
    then show ?thesis
      using step mid(2,3) by (simp add: fillAll_snoc stable)
  next
    case False
    then have "\<And>x. (gidRemaps st)[i := x] = gidRemaps st" by (simp add: list_update_beyond)
    then show ?thesis using step mid(2,3) by simp
  qed
  show ?case using step mid(2) remaps by simp
qed

lemma tilesetChunkLoop_spec:
  assumes "tilesetInv st"
  shows "tilesetInv (tilesetChunkLoop chunks idx st) \<and>
         globalTilesets (tilesetChunkLoop chunks idx st) =
           foldl dedupStep (globalTilesets st) (allTilesets chunks) \<and>
         length (gidRemaps (tilesetChunkLoop chunks idx st)) = length (gidRemaps st) \<and>
         (\<forall>p<idx. gidRemaps (tilesetChunkLoop chunks idx st) ! p = gidRemaps st ! p) \<and>
         (\<forall>j<length chunks. idx + j < length (gidRemaps st) \<longrightarrow>
            gidRemaps (tilesetChunkLoop chunks idx st) ! (idx + j) =
              fillAll (globalTilesets (tilesetChunkLoop chunks idx st))
                (gidRemaps st ! (idx + j)) (tmj_tilesets (tmj (chunks ! j))))"
  using assms
proof (induction chunks arbitrary: idx st)
  case Nil
  then show ?case by (simp add: allTilesets_def)
next
  case (Cons c chunks)
  let ?tss = "tmj_tilesets (tmj c)"
  let ?st1 = "foldl (tilesetStep idx) st ?tss"
  let ?fin = "tilesetChunkLoop chunks (Suc idx) ?st1"
  note first = foldl_tilesetStep_spec[OF Cons.prems, of idx ?tss]
  then have inv1: "tilesetInv ?st1" by simp
  note rest = Cons.IH[OF inv1, of "Suc idx"]
  have G1: "globalTilesets ?st1 = foldl dedupStep (globalTilesets st) ?tss" using first by simp
  have Gfin: "globalTilesets ?fin = foldl dedupStep (globalTilesets st) (allTilesets (c # chunks))"
    using rest G1 by (simp add: allTilesets_def)
  have len1: "length (gidRemaps ?st1) = length (gidRemaps st)" using first by simp
  have len: "length (gidRemaps ?fin) = length (gidRemaps st)" using rest len1 by simp
  have low: "gidRemaps ?fin ! p = gidRemaps st ! p" if "p < idx" for p
  proof -
    have "gidRemaps ?fin ! p = gidRemaps ?st1 ! p" using rest that by simp
    also have "\<dots> = gidRemaps st ! p" using first that by simp
    finally show ?thesis .
  qed
  obtain e where e: "globalTilesets ?fin = globalTilesets ?st1 @ e"
    using rest foldl_dedupStep_extends[of "globalTilesets ?st1" "allTilesets chunks"] by auto
  have sub: "set (map tilesetKey ?tss) \<subseteq> set (map tilesetKey (globalTilesets ?st1))"
    unfolding G1 keys_foldl_dedupStep by blast
  have here: "gidRemaps ?fin ! idx = fillAll (globalTilesets ?fin) (gidRemaps st ! idx) ?tss"
    if "idx < length (gidRemaps st)"
  proof -
    have "gidRemaps ?fin ! idx = gidRemaps ?st1 ! idx" using rest by simp
    also have "\<dots> = fillAll (globalTilesets ?st1) (gidRemaps st ! idx) ?tss"
      using first that by simp
    also have "\<dots> = fillAll (globalTilesets ?fin) (gidRemaps st ! idx) ?tss"
      unfolding e using sub by (rule fillAll_extend[symmetric])
    finally show ?thesis .
  qed
  have later: "gidRemaps ?fin ! (idx + j) =
              fillAll (globalTilesets ?fin) (gidRemaps st ! (idx + j))
                (tmj_tilesets (tmj ((c # chunks) ! j)))"
    if j: "j < length (c # chunks)" "idx + j < length (gidRemaps st)" for j
  proof (cases j)
    case 0
    then show ?thesis using here j by simp
  next
    case (Suc j')
    have j': "j' < length chunks" "Suc idx + j' < length (gidRemaps ?st1)"
      using j Suc len1 by simp_all
    have "gidRemaps ?fin ! (Suc idx + j') =
            fillAll (globalTilesets ?fin) (gidRemaps ?st1 ! (Suc idx + j'))
              (tmj_tilesets (tmj (chunks ! j')))"
      using rest j' by blast
    moreover have "gidRemaps ?st1 ! (Suc idx + j') = gidRemaps st ! (Suc idx + j')"
      using first by simp
    ultimately show ?thesis using Suc by simp
  qed
  show ?case
    unfolding tilesetChunkLoop.simps
    using rest Gfin len low later by blast
qed

lemma tilesetInv_init:
  "tilesetInv \<lparr>globalTilesets = [], gidRemaps = rs,
               tilesetKeyToGlobalIndex = Map.empty, nextFirstGid = 1\<rparr>"
  by (simp add: tilesetInv_def)

lemma mergeTilesets_spec:
  "fst (mergeTilesets chunks) = foldl dedupStep [] (allTilesets chunks) \<and>
   length (snd (mergeTilesets chunks)) = length chunks \<and>
   (\<forall>i<length chunks.
      snd (mergeTilesets chunks) ! i =
        fillAll (fst (mergeTilesets chunks)) Map.empty (tmj_tilesets (tmj (chunks ! i))))"
proof -
  define st0 where "st0 = \<lparr>globalTilesets = [], gidRemaps = map (\<lambda>_. Map.empty) chunks,
               tilesetKeyToGlobalIndex = Map.empty, nextFirstGid = 1\<rparr>"
  define fin where "fin = tilesetChunkLoop chunks 0 st0"
  have inv0: "tilesetInv st0" unfolding st0_def by (rule tilesetInv_init)
  have g0: "globalTilesets st0 = []" and r0: "gidRemaps st0 = map (\<lambda>_. Map.empty) chunks"
    by (simp_all add: st0_def)
  note L = tilesetChunkLoop_spec[OF inv0, of chunks 0, folded fin_def]
  have G: "globalTilesets fin = foldl dedupStep [] (allTilesets chunks)"
    using L[THEN conjunct2, THEN conjunct1] unfolding g0 .
  have len: "length (gidRemaps fin) = length chunks"
    using L[THEN conjunct2, THEN conjunct2, THEN conjunct1] unfolding r0 by simp
  have each: "gidRemaps fin ! i = fillAll (globalTilesets fin) Map.empty (tmj_tilesets (tmj (chunks ! i)))"
    if i: "i < length chunks" for i
  proof -
    have "0 + i < length (gidRemaps st0)" using i by (simp add: r0)
    with L[THEN conjunct2, THEN conjunct2, THEN conjunct2, THEN conjunct2] i
    have "gidRemaps fin ! (0 + i) =
            fillAll (globalTilesets fin) (gidRemaps st0 ! (0 + i)) (tmj_tilesets (tmj (chunks ! i)))"
      by blast
    then show ?thesis using i by (simp add: r0)
  qed
  have m: "mergeTilesets chunks = (globalTilesets fin, gidRemaps fin)"
    by (simp add: mergeTilesets_def Let_def fin_def st0_def)
  show ?thesis unfolding m fst_conv snd_conv using G len each by blast
qed

lemma filter_keys_snoc:
  "filter (\<lambda>y. tilesetKey y \<notin> set (map tilesetKey (gts @ [x']))) xs =
   filter (\<lambda>y. tilesetKey y \<noteq> tilesetKey x')
     (filter (\<lambda>y. tilesetKey y \<notin> set (map tilesetKey gts)) xs)"
  by (induction xs) auto

lemma foldl_dedupStep_firstSeen:
  "foldl dedupStep gts xs =
     gts @ renumber (1 + sum_list (map tileCountOf gts))
             (firstSeen tilesetKey (filter (\<lambda>x. tilesetKey x \<notin> set (map tilesetKey gts)) xs))"
proof (induction xs arbitrary: gts)
  case Nil
  then show ?case by simp
next
  case (Cons x xs)
  show ?case
  proof (cases "tilesetKey x \<in> set (map tilesetKey gts)")
    case True
    then show ?thesis using Cons.IH[of gts] by (simp add: dedupStep_def)
  next
    case False
    let ?x' = "x\<lparr>ts_firstgid := 1 + sum_list (map tileCountOf gts)\<rparr>"
    have d: "dedupStep gts x = gts @ [?x']" using False by (simp add: dedupStep_def)
    have f: "filter (\<lambda>y. tilesetKey y \<notin> set (map tilesetKey (gts @ [?x']))) xs =
             filter (\<lambda>y. tilesetKey y \<noteq> tilesetKey x)
               (filter (\<lambda>y. tilesetKey y \<notin> set (map tilesetKey gts)) xs)"
      using filter_keys_snoc[of gts ?x' xs] by simp
    have "foldl dedupStep gts (x # xs) = foldl dedupStep (gts @ [?x']) xs" by (simp add: d)
    also have "\<dots> = (gts @ [?x']) @
         renumber (1 + sum_list (map tileCountOf (gts @ [?x'])))
           (firstSeen tilesetKey
              (filter (\<lambda>y. tilesetKey y \<notin> set (map tilesetKey (gts @ [?x']))) xs))"
      by (rule Cons.IH)
    also have "\<dots> = gts @ renumber (1 + sum_list (map tileCountOf gts))
             (firstSeen tilesetKey
                (filter (\<lambda>y. tilesetKey y \<notin> set (map tilesetKey gts)) (x # xs)))"
      unfolding f using False by (simp add: add.assoc)
    finally show ?thesis .
  qed
qed




lemma map_count_renumber [simp]: "map tileCountOf (renumber n xs) = map tileCountOf xs"
  by (induction xs arbitrary: n) simp_all

lemma length_renumber [simp]: "length (renumber n xs) = length xs"
  by (induction xs arbitrary: n) simp_all

lemma renumber_nth:
  "j < length xs \<Longrightarrow>
   renumber n xs ! j = (xs ! j)\<lparr>ts_firstgid := n + sum_list (map tileCountOf (take j xs))\<rparr>"
proof (induction xs arbitrary: n j)
  case Nil
  then show ?case by simp
next
  case (Cons x xs)
  then show ?case by (cases j) (simp_all add: add.assoc)
qed




subsection \<open>Tile layers\<close>

lemma grid_index:
  fixes gx gy W H :: int
  assumes "0 \<le> gx" "gx < W" "0 \<le> gy" "gy < H"
  shows "0 \<le> gy * W + gx \<and> gy * W + gx < W * H"
proof -
  have W: "0 < W" using assms by linarith
  have "gy * W \<le> (H - 1) * W"
    using assms W by (intro mult_right_mono) auto
  then have "gy * W + gx < (H - 1) * W + W" using assms by linarith
  also have "\<dots> = W * H" by (simp add: algebra_simps)
  finally have up: "gy * W + gx < W * H" .
  have "0 \<le> gy * W" using assms W by simp
  then show ?thesis using up assms by linarith
qed

lemma grid_index_inj:
  fixes gx gy gx' gy' W :: int
  assumes "0 \<le> gx" "gx < W" "0 \<le> gx'" "gx' < W" "gy * W + gx = gy' * W + gx'"
  shows "gx = gx' \<and> gy = gy'"
proof -
  have W: "W \<noteq> 0" using assms by linarith
  have "(gy * W + gx) div W = gy" using assms(1,2) W by (simp add: div_pos_pos_trivial)
  moreover have "(gy' * W + gx') div W = gy'" using assms(3,4) W by (simp add: div_pos_pos_trivial)
  ultimately have y: "gy = gy'" using assms(5) by simp
  then show ?thesis using assms(5) by simp
qed

lemma destCell_less:
  assumes "inBounds W H ox oy cell"
  shows "destCell W ox oy cell < nat (W * H)"
proof -
  obtain lx ly where cell: "cell = (lx, ly)" by (cases cell)
  from assms have b: "0 \<le> ox + lx" "ox + lx < W" "0 \<le> oy + ly" "oy + ly < H"
    by (simp_all add: inBounds_def cell)
  from grid_index[OF b] show ?thesis by (simp add: destCell_def cell nat_less_iff)
qed

lemma destCell_inj:
  assumes "inBounds W H ox oy c1" "inBounds W H ox oy c2"
    and "destCell W ox oy c1 = destCell W ox oy c2"
  shows "c1 = c2"
proof -
  obtain x1 y1 where c1: "c1 = (x1, y1)" by (cases c1)
  obtain x2 y2 where c2: "c2 = (x2, y2)" by (cases c2)
  from assms(1) have b1: "0 \<le> ox + x1" "ox + x1 < W" "0 \<le> oy + y1" "oy + y1 < H"
    by (simp_all add: inBounds_def c1)
  from assms(2) have b2: "0 \<le> ox + x2" "ox + x2 < W" "0 \<le> oy + y2" "oy + y2 < H"
    by (simp_all add: inBounds_def c2)
  have n1: "0 \<le> (oy + y1) * W + (ox + x1)" using grid_index[OF b1] by simp
  have n2: "0 \<le> (oy + y2) * W + (ox + x2)" using grid_index[OF b2] by simp
  have "(oy + y1) * W + (ox + x1) = (oy + y2) * W + (ox + x2)"
    using assms(3) n1 n2 by (simp add: destCell_def c1 c2)
  from grid_index_inj[OF b1(1,2) b2(1,2) this] show ?thesis by (simp add: c1 c2)
qed

lemma cellLoop_fin:
  assumes "b_width b = Fin W" "b_height b = Fin H"
  shows "cellLoop src b (Some m) (Fin ox) (Fin oy) cells dest =
           Inr (foldl (writeCell src m W H ox oy) dest cells)"
proof (induction cells arbitrary: dest)
  case Nil
  then show ?case by simp
next
  case (Cons cell cells)
  obtain lx ly where cell: "cell = (lx, ly)" by (cases cell)
  show ?case
  proof (cases "written src W H ox oy cell")
    case True
    then have g: "readCell (tl_data src) (ly * tl_width src + lx) \<noteq> 0"
      and inb: "inBounds W H ox oy (lx, ly)"
      by (simp_all add: written_def srcGid_def cell)
    from inb have b: "0 \<le> ox + lx" "ox + lx < W" "0 \<le> oy + ly" "oy + ly < H"
      by (simp_all add: inBounds_def)
    have idx: "0 \<le> (oy + ly) * W + (ox + lx)" using grid_index[OF b] by simp
    have wr: "arrayWrite dest (Fin ((oy + ly) * W + (ox + lx))) v =
              dest[destCell W ox oy cell := v]" for v
    proof (cases "(oy + ly) * W + (ox + lx) < int (length dest)")
      case True
      then show ?thesis using idx by (simp add: arrayWrite_def destCell_def cell)
    next
      case False
      then have "length dest \<le> destCell W ox oy cell"
        using idx by (simp add: destCell_def cell)
      then show ?thesis using False by (simp add: arrayWrite_def list_update_beyond)
    qed
    show ?thesis
      using True g b assms wr Cons.IH
      by (simp add: cell Let_def writeCell_def remapGid_def srcGid_def split: option.splits)
  next
    case False
    then consider "readCell (tl_data src) (ly * tl_width src + lx) = 0"
      | "readCell (tl_data src) (ly * tl_width src + lx) \<noteq> 0" "\<not> inBounds W H ox oy (lx, ly)"
      by (auto simp: written_def srcGid_def cell)
    then show ?thesis
    proof cases
      case 1
      then show ?thesis using False Cons.IH by (simp add: cell writeCell_def)
    next
      case 2
      then show ?thesis
        using False assms Cons.IH
        by (auto simp: cell Let_def writeCell_def inBounds_def not_less not_le)
    qed
  qed
qed

lemma length_foldl_writeCell [simp]:
  "length (foldl (writeCell src m W H ox oy) dest cells) = length dest"
  by (induction cells arbitrary: dest) (simp_all add: writeCell_def)

lemma foldl_writeCell_miss:
  "\<forall>c\<in>set cells. written src W H ox oy c \<longrightarrow> destCell W ox oy c \<noteq> p \<Longrightarrow>
   foldl (writeCell src m W H ox oy) dest cells ! p = dest ! p"
proof (induction cells arbitrary: dest)
  case Nil
  then show ?case by simp
next
  case (Cons c cells)
  have "foldl (writeCell src m W H ox oy) (writeCell src m W H ox oy dest c) cells ! p =
        writeCell src m W H ox oy dest c ! p"
    using Cons.prems by (intro Cons.IH) simp
  also have "\<dots> = dest ! p" using Cons.prems by (simp add: writeCell_def)
  finally show ?case by simp
qed

lemma foldl_writeCell_hit:
  assumes "distinct cells" "c \<in> set cells" "written src W H ox oy c" "length dest = nat (W * H)"
  shows "foldl (writeCell src m W H ox oy) dest cells ! destCell W ox oy c = remapGid m (srcGid src c)"
  using assms
proof (induction cells arbitrary: dest)
  case Nil
  then show ?case by simp
next
  case (Cons c' cells)
  show ?case
  proof (cases "c = c'")
    case True
    have notin: "c \<notin> set cells" using Cons.prems(1) True by simp
    have inb: "inBounds W H ox oy c" using Cons.prems(3) by (simp add: written_def)
    have other: "\<forall>d\<in>set cells. written src W H ox oy d \<longrightarrow> destCell W ox oy d \<noteq> destCell W ox oy c"
    proof (intro ballI impI)
      fix d assume d: "d \<in> set cells" "written src W H ox oy d"
      then have "inBounds W H ox oy d" by (simp add: written_def)
      with inb notin d(1) show "destCell W ox oy d \<noteq> destCell W ox oy c"
        using destCell_inj[of W H ox oy d c] by auto
    qed
    have "foldl (writeCell src m W H ox oy) (writeCell src m W H ox oy dest c) cells ! destCell W ox oy c
          = writeCell src m W H ox oy dest c ! destCell W ox oy c"
      using other by (rule foldl_writeCell_miss)
    also have "\<dots> = remapGid m (srcGid src c)"
      using Cons.prems(3,4) destCell_less[OF inb] by (simp add: writeCell_def)
    finally show ?thesis using True by simp
  next
    case False
    then have "c \<in> set cells" using Cons.prems(2) by simp
    moreover have "length (writeCell src m W H ox oy dest c') = nat (W * H)"
      using Cons.prems(4) by (simp add: writeCell_def)
    ultimately show ?thesis using Cons.prems(1,3) Cons.IH by simp
  qed
qed

lemma nonzeroCells_update:
  "p < length xs \<Longrightarrow> xs ! p = 0 \<Longrightarrow> v \<noteq> 0 \<Longrightarrow> nonzeroCells (xs[p := v]) = Suc (nonzeroCells xs)"
proof (induction xs arbitrary: p)
  case Nil
  then show ?case by simp
next
  case (Cons x xs)
  then show ?case by (cases p) (auto simp: nonzeroCells_def)
qed

lemma nonzeroCells_foldl_writeCell:
  assumes "distinct cells" "length dest = nat (W * H)"
    and "\<forall>c\<in>set cells. written src W H ox oy c \<longrightarrow>
           dest ! destCell W ox oy c = 0 \<and> remapGid m (srcGid src c) \<noteq> 0"
  shows "nonzeroCells (foldl (writeCell src m W H ox oy) dest cells) =
         nonzeroCells dest + length (filter (written src W H ox oy) cells)"
  using assms
proof (induction cells arbitrary: dest)
  case Nil
  then show ?case by simp
next
  case (Cons c cells)
  let ?d = "writeCell src m W H ox oy dest c"
  have len: "length ?d = nat (W * H)" using Cons.prems(2) by (simp add: writeCell_def)
  have zero: "\<forall>e\<in>set cells. written src W H ox oy e \<longrightarrow>
           ?d ! destCell W ox oy e = 0 \<and> remapGid m (srcGid src e) \<noteq> 0"
  proof (intro ballI impI)
    fix e assume e: "e \<in> set cells" "written src W H ox oy e"
    then have old: "dest ! destCell W ox oy e = 0" "remapGid m (srcGid src e) \<noteq> 0"
      using Cons.prems(3) by auto
    have "?d ! destCell W ox oy e = dest ! destCell W ox oy e"
    proof (cases "written src W H ox oy c")
      case True
      have "e \<noteq> c" using e(1) Cons.prems(1) by auto
      then have "destCell W ox oy c \<noteq> destCell W ox oy e"
        using destCell_inj[of W H ox oy c e] True e(2) by (auto simp: written_def)
      then show ?thesis using True by (simp add: writeCell_def)
    next
      case False
      then show ?thesis by (simp add: writeCell_def)
    qed
    with old show "?d ! destCell W ox oy e = 0 \<and> remapGid m (srcGid src e) \<noteq> 0" by simp
  qed
  have IH: "nonzeroCells (foldl (writeCell src m W H ox oy) ?d cells) =
            nonzeroCells ?d + length (filter (written src W H ox oy) cells)"
    using Cons.prems(1) len zero by (intro Cons.IH) simp_all
  have step: "nonzeroCells ?d = nonzeroCells dest + (if written src W H ox oy c then 1 else 0)"
  proof (cases "written src W H ox oy c")
    case True
    then have inb: "inBounds W H ox oy c" by (simp add: written_def)
    have "nonzeroCells (dest[destCell W ox oy c := remapGid m (srcGid src c)]) = Suc (nonzeroCells dest)"
      using destCell_less[OF inb] Cons.prems(2,3) True by (intro nonzeroCells_update) auto
    then show ?thesis using True by (simp add: writeCell_def)
  next
    case False
    then show ?thesis by (simp add: writeCell_def)
  qed
  show ?case using IH step by simp
qed


lemma distinct_cells_rows:
  "distinct xs \<Longrightarrow> distinct ys \<Longrightarrow>
   distinct (concat (map (\<lambda>y. map (\<lambda>x. (x, y)) xs) ys))"
proof (induction ys)
  case Nil
  then show ?case by simp
next
  case (Cons y ys)
  have "distinct (map (\<lambda>x. (x, y)) xs)"
    using Cons.prems(1) by (simp add: distinct_map inj_on_def)
  moreover have "set (map (\<lambda>x. (x, y)) xs) \<inter> set (concat (map (\<lambda>y. map (\<lambda>x. (x, y)) xs) ys)) = {}"
    using Cons.prems(2) by auto
  ultimately show ?case using Cons by simp
qed

lemma distinct_cellsOf: "distinct (cellsOf w h)"
  unfolding cellsOf_def by (rule distinct_cells_rows) simp_all

lemma newArray_Fin:
  "newArray (Fin n) = (if 0 \<le> n \<and> n < 2 ^ 32 then Inr (replicate (nat n) 0) else Inl RangeError)"
  by (simp add: newArray_def)

lemma mergeOneTileLayer_fin:
  assumes "b_width b = Fin W" "b_height b = Fin H"
  shows "mergeOneTileLayer src b (Some m) (Fin ox) (Fin oy) i =
     (if 0 \<le> W * H \<and> W * H < 2 ^ 32
      then Inr (src\<lparr>l_id := i, l_x := Some 0, l_y := Some 0, tl_width := W, tl_height := H,
                    tl_data := foldl (writeCell src m W H ox oy) (replicate (nat (W * H)) 0)
                                 (cellsOf (tl_width src) (tl_height src))\<rparr>)
      else Inl RangeError)"
  using assms cellLoop_fin[OF assms, of src m ox oy]
  by (simp add: mergeOneTileLayer_def newArray_Fin)

lemma tileSourcesFrom_nth:
  "k < length (tileSourcesFrom idx cs) \<Longrightarrow> tileSourcesFrom idx cs ! k = (i, c, src) \<Longrightarrow>
   idx \<le> i \<and> i - idx < length cs \<and> c = cs ! (i - idx) \<and>
   src \<in> set (tileLayersOf (tmj_layers (tmj c)))"
proof (induction cs arbitrary: idx k)
  case Nil
  then show ?case by simp
next
  case (Cons c0 cs)
  let ?here = "map (\<lambda>src. (idx, c0, src)) (tileLayersOf (tmj_layers (tmj c0)))"
  show ?case
  proof (cases "k < length ?here")
    case True
    then have "?here ! k = (i, c, src)"
      using Cons.prems(2) unfolding tileSourcesFrom.simps by (simp only: nth_append if_True)
    moreover have "?here ! k = (idx, c0, tileLayersOf (tmj_layers (tmj c0)) ! k)"
      using True by simp
    ultimately have eq: "(i, c, src) = (idx, c0, tileLayersOf (tmj_layers (tmj c0)) ! k)"
      by (rule trans[OF sym])
    have i: "i = idx" and c: "c = c0" and src: "src = tileLayersOf (tmj_layers (tmj c0)) ! k"
      using eq by (simp_all only: prod.inject)
    have "src \<in> set (tileLayersOf (tmj_layers (tmj c0)))"
      unfolding src using True by simp
    then show ?thesis unfolding i c by simp
  next
    case False
    then have k: "k - length ?here < length (tileSourcesFrom (Suc idx) cs)"
      using Cons.prems(1) by simp
    have "tileSourcesFrom (Suc idx) cs ! (k - length ?here) = (i, c, src)"
      using False Cons.prems(2) by (simp add: nth_append)
    from Cons.IH[OF k this] have
      "Suc idx \<le> i" "i - Suc idx < length cs" "c = cs ! (i - Suc idx)"
      "src \<in> set (tileLayersOf (tmj_layers (tmj c)))"
      by blast+
    moreover then have "i - idx = Suc (i - Suc idx)" by simp
    ultimately show ?thesis by simp
  qed
qed

subsection \<open>Remaps\<close>

lemma fillAll_none:
  "\<forall>k<length tss. \<not> covers (tss ! k) gid \<Longrightarrow> fillAll gts m tss gid = m gid"
proof (induction tss rule: rev_induct)
  case Nil
  then show ?case by (simp add: fillAll_def)
next
  case (snoc ts tss)
  have last: "\<not> covers ts gid" using snoc.prems[rule_format, of "length tss"] by simp
  have "\<forall>k<length tss. \<not> covers (tss ! k) gid"
  proof (intro allI impI)
    fix k assume "k < length tss"
    then show "\<not> covers (tss ! k) gid"
      using snoc.prems[rule_format, of k] by (simp add: nth_append)
  qed
  then have "fillAll gts m tss gid = m gid" by (rule snoc.IH)
  then show ?case using last by (simp add: fillAll_snoc fillRange_def)
qed


lemma fillAll_cases:
  "fillAll gts m tss gid = m gid \<or>
   (\<exists>ts\<in>set tss. covers ts gid \<and>
      fillAll gts m tss gid = Some (globalFirstGid gts (tilesetKey ts) + (gid - ts_firstgid ts)))"
proof (induction tss rule: rev_induct)
  case Nil
  then show ?case by (simp add: fillAll_def)
next
  case (snoc ts tss)
  show ?case
  proof (cases "covers ts gid")
    case True
    then show ?thesis by (simp add: fillAll_snoc fillRange_def)
  next
    case False
    then have "fillAll gts m (tss @ [ts]) gid = fillAll gts m tss gid"
      by (simp add: fillAll_snoc fillRange_def)
    then show ?thesis using snoc.IH by auto
  qed
qed

subsection \<open>The tile layers of the merged document\<close>

lemma nth_opt_Some: "i < length xs \<Longrightarrow> nth_opt xs i = Some (xs ! i)"
  by (simp add: nth_opt_def)

lemma num_sub_Fin [simp]: "num_sub (Fin a) (Fin b) = Fin (a - b)"
  by (simp add: num_sub_def)

lemma merged_tile_layer:
  assumes run: "mergeTmjMaps chunks = Inr merged"
    and k: "k < length (tileSourcesFrom 0 chunks)"
    and src: "tileSourcesFrom 0 chunks ! k = (i, c, src)"
  shows "i < length chunks \<and> c = chunks ! i \<and>
         tmj_tilesets merged = fst (mergeTilesets chunks) \<and>
         0 \<le> tmj_width merged * tmj_height merged \<and>
         tileLayersOf (tmj_layers merged) ! k =
           src\<lparr>l_id := 1 + int k, l_x := Some 0, l_y := Some 0,
               tl_width := tmj_width merged, tl_height := tmj_height merged,
               tl_data :=
                 foldl (writeCell src (snd (mergeTilesets chunks) ! i)
                          (tmj_width merged) (tmj_height merged)
                          (gridOffsetX chunks c) (gridOffsetY chunks c))
                   (replicate (nat (tmj_width merged * tmj_height merged)) 0)
                   (cellsOf (tl_width src) (tl_height src))\<rparr>"
proof -
  from mergeTmjMaps_Inr[OF run] obtain c0 cs tls ogs w h where all:
    "chunks = c0 # cs \<and>
     validateLoop (tmj_tilewidth (tmj c0)) (tmj_tileheight (tmj c0)) chunks = None \<and>
     mergeTileLayers chunks (computeBounds chunks) (snd (mergeTilesets chunks)) = Inr tls \<and>
     mergeObjectGroups chunks (computeBounds chunks) (snd (mergeTilesets chunks))
       (tmj_tilewidth (tmj c0)) (tmj_tileheight (tmj c0)) = Inr ogs \<and>
     b_width (computeBounds chunks) = Fin w \<and> b_height (computeBounds chunks) = Fin h \<and>
     merged = (tmj c0)\<lparr>tmj_width := w, tmj_height := h,
                tmj_layers := map TileLayer tls @ map ObjectGroup ogs,
                tmj_tilesets := fst (mergeTilesets chunks)\<rparr>"
    by (elim exE)
  let ?b = "computeBounds chunks" and ?rs = "snd (mergeTilesets chunks)"
  from all have chunks: "chunks = c0 # cs"
    and tls: "mergeTileLayers chunks ?b ?rs = Inr tls"
    and bw: "b_width ?b = Fin w" and bh: "b_height ?b = Fin h"
    and merged: "merged = (tmj c0)\<lparr>tmj_width := w, tmj_height := h,
                tmj_layers := map TileLayer tls @ map ObjectGroup ogs,
                tmj_tilesets := fst (mergeTilesets chunks)\<rparr>"
    by blast+
  have W: "tmj_width merged = w" and H: "tmj_height merged = h"
    and layers: "tileLayersOf (tmj_layers merged) = tls"
    and tilesets: "tmj_tilesets merged = fst (mergeTilesets chunks)"
    by (simp_all add: merged)
  have mn: "minX ?b = Fin (Min (set (map offsetX chunks)))"
           "minY ?b = Fin (Min (set (map offsetY chunks)))"
    unfolding chunks computeBounds_Cons by simp_all
  from tileSourcesFrom_nth[OF k src] have i: "i < length chunks" and c: "c = chunks ! i"
    by simp_all
  have remap: "nth_opt ?rs i = Some (?rs ! i)"
    using i mergeTilesets_spec[of chunks] by (intro nth_opt_Some) simp
  have kk: "k < length tls" using mergeTileLayers_result[OF tls] k by simp
  have "mergeOneTileLayer src ?b (nth_opt ?rs i)
          (num_sub (Fin (offsetX c)) (minX ?b)) (num_sub (Fin (offsetY c)) (minY ?b))
          (1 + int k) = Inr (tls ! k)"
    using mergeTileLayers_result[OF tls] kk src by auto
  then have one: "mergeOneTileLayer src ?b (Some (?rs ! i))
          (Fin (gridOffsetX chunks c)) (Fin (gridOffsetY chunks c)) (1 + int k) = Inr (tls ! k)"
    unfolding remap mn num_sub_Fin gridOffsetX_def gridOffsetY_def .
  have size: "0 \<le> w * h"
    using one unfolding mergeOneTileLayer_fin[OF bw bh] by (simp split: if_splits)
  have out: "tls ! k =
           src\<lparr>l_id := 1 + int k, l_x := Some 0, l_y := Some 0, tl_width := w, tl_height := h,
               tl_data :=
                 foldl (writeCell src (?rs ! i) w h (gridOffsetX chunks c) (gridOffsetY chunks c))
                   (replicate (nat (w * h)) 0) (cellsOf (tl_width src) (tl_height src))\<rparr>"
    using one unfolding mergeOneTileLayer_fin[OF bw bh] by (simp split: if_splits)
  show ?thesis unfolding W H layers using i c tilesets size out by simp
qed

lemma globalFirstGid_mem:
  "k \<in> set (map tilesetKey gts) \<Longrightarrow>
   \<exists>g\<in>set gts. tilesetKey g = k \<and> globalFirstGid gts k = ts_firstgid g"
proof (induction gts)
  case Nil
  then show ?case by simp
next
  case (Cons g gts)
  then show ?case by (cases "tilesetKey g = k") (auto simp: globalFirstGid_def)
qed

lemma chunk_tileset_key_global:
  assumes "i < length chunks" "ts \<in> set (tmj_tilesets (tmj (chunks ! i)))"
  shows "tilesetKey ts \<in> set (map tilesetKey (fst (mergeTilesets chunks)))"
proof -
  have "ts \<in> set (allTilesets chunks)"
    using assms by (auto simp: allTilesets_def intro!: bexI[of _ "chunks ! i"])
  then have "tilesetKey ts \<in> set (map tilesetKey [] ) \<union> set (map tilesetKey (allTilesets chunks))"
    by simp
  then show ?thesis
    using mergeTilesets_spec[of chunks] keys_foldl_dedupStep[of "[]" "allTilesets chunks"] by simp
qed

lemma set_firstSeen_subset: "set (firstSeen key xs) \<subseteq> set xs"
proof (induction key xs rule: firstSeen.induct)
  case (1 key)
  then show ?case by simp
next
  case (2 key x xs)
  then show ?case by auto
qed

lemma global_firstgid_pos:
  assumes nonneg: "\<forall>ts\<in>set (allTilesets chunks). 0 \<le> tileCountOf ts"
    and g: "g \<in> set (fst (mergeTilesets chunks))"
  shows "1 \<le> ts_firstgid g"
proof -
  let ?F = "firstSeen tilesetKey (allTilesets chunks)"
  have G: "fst (mergeTilesets chunks) = renumber 1 ?F"
    using mergeTilesets_spec[of chunks] foldl_dedupStep_firstSeen[of "[]" "allTilesets chunks"]
    by simp
  from g obtain j where j: "j < length ?F" "g = renumber 1 ?F ! j"
    unfolding G by (auto simp: in_set_conv_nth)
  have "\<forall>x\<in>set (map tileCountOf (take j ?F)). 0 \<le> x"
    using nonneg set_firstSeen_subset[of tilesetKey "allTilesets chunks"]
    by (auto dest!: in_set_takeD)
  then have "0 \<le> sum_list (map tileCountOf (take j ?F))" by (intro sum_list_nonneg) blast
  then show ?thesis using j renumber_nth[OF j(1), of 1] by simp
qed

lemma merged_remap_nonzero:
  assumes nonneg: "\<forall>ts\<in>set (allTilesets chunks). 0 \<le> tileCountOf ts"
    and i: "i < length chunks" and gid: "gid \<noteq> 0"
  shows "remapGid (snd (mergeTilesets chunks) ! i) gid \<noteq> 0"
proof -
  let ?G = "fst (mergeTilesets chunks)" and ?tss = "tmj_tilesets (tmj (chunks ! i))"
  have r: "snd (mergeTilesets chunks) ! i = fillAll ?G Map.empty ?tss"
    using mergeTilesets_spec[of chunks] i by simp
  from fillAll_cases[of ?G Map.empty ?tss gid] show ?thesis
  proof
    assume "fillAll ?G Map.empty ?tss gid = Map.empty gid"
    then show ?thesis using gid by (simp add: r remapGid_def)
  next
    assume "\<exists>ts\<in>set ?tss. covers ts gid \<and>
      fillAll ?G Map.empty ?tss gid = Some (globalFirstGid ?G (tilesetKey ts) + (gid - ts_firstgid ts))"
    then obtain ts where ts: "ts \<in> set ?tss" "covers ts gid"
      "fillAll ?G Map.empty ?tss gid = Some (globalFirstGid ?G (tilesetKey ts) + (gid - ts_firstgid ts))"
      by blast
    from globalFirstGid_mem[OF chunk_tileset_key_global[OF i ts(1)]] obtain g where
      g: "g \<in> set ?G" "globalFirstGid ?G (tilesetKey ts) = ts_firstgid g" by blast
    have "1 \<le> ts_firstgid g" using nonneg g(1) by (rule global_firstgid_pos)
    moreover have "0 \<le> gid - ts_firstgid ts" using ts(2) by (simp add: covers_def)
    ultimately show ?thesis using ts(3) g(2) by (simp add: r remapGid_def)
  qed
qed

subsection \<open>When the merge returns a document\<close>

lemma tileLayerLoop_succeeds:
  assumes "\<And>src n. src \<in> set (tileLayersOf layers) \<Longrightarrow>
             \<exists>d. mergeOneTileLayer src b r ox oy n = Inr d"
  shows "\<exists>st'. tileLayerLoop b r ox oy layers st = Inr st'"
  using assms
proof (induction layers arbitrary: st)
  case Nil
  then show ?case by simp
next
  case (Cons l layers)
  obtain ml n where st: "st = (ml, n)" by (cases st)
  show ?case
  proof (cases l)
    case (TileLayer src)
    from Cons.prems[of src n] TileLayer obtain d where
      d: "mergeOneTileLayer src b r ox oy n = Inr d" by auto
    have "\<exists>st'. tileLayerLoop b r ox oy layers (ml @ [d], n + 1) = Inr st'"
      using Cons.prems TileLayer by (intro Cons.IH) auto
    then show ?thesis using d TileLayer st by simp
  next
    case (ObjectGroup g)
    have "\<exists>st'. tileLayerLoop b r ox oy layers st = Inr st'"
      using Cons.prems ObjectGroup by (intro Cons.IH) auto
    then show ?thesis using ObjectGroup st by simp
  next
    case (ImageLayer im)
    have "\<exists>st'. tileLayerLoop b r ox oy layers st = Inr st'"
      using Cons.prems ImageLayer by (intro Cons.IH) auto
    then show ?thesis using ImageLayer st by simp
  next
    case (GroupLayer gb gl)
    have "\<exists>st'. tileLayerLoop b r ox oy layers st = Inr st'"
      using Cons.prems GroupLayer by (intro Cons.IH) auto
    then show ?thesis using GroupLayer st by simp
  qed
qed

lemma tileChunkLoop_succeeds:
  assumes "b_width b = Fin W" "b_height b = Fin H" "0 \<le> W * H" "W * H < 2 ^ 32"
    and "minX b = Fin mx" "minY b = Fin my"
    and "idx + length chunks \<le> length rs"
  shows "\<exists>st'. tileChunkLoop b rs chunks idx st = Inr st'"
  using assms(7)
proof (induction chunks arbitrary: idx st)
  case Nil
  then show ?case by simp
next
  case (Cons c chunks)
  have r: "nth_opt rs idx = Some (rs ! idx)" using Cons.prems by (intro nth_opt_Some) simp
  have "\<exists>st1. tileLayerLoop b (nth_opt rs idx) (num_sub (Fin (offsetX c)) (minX b))
                 (num_sub (Fin (offsetY c)) (minY b)) (tmj_layers (tmj c)) st = Inr st1"
    unfolding r assms(5,6) num_sub_Fin
    using assms(3,4)
    by (intro tileLayerLoop_succeeds) (simp add: mergeOneTileLayer_fin[OF assms(1,2)])
  then obtain st1 where st1: "tileLayerLoop b (nth_opt rs idx) (num_sub (Fin (offsetX c)) (minX b))
                 (num_sub (Fin (offsetY c)) (minY b)) (tmj_layers (tmj c)) st = Inr st1" by blast
  have "\<exists>st'. tileChunkLoop b rs chunks (Suc idx) st1 = Inr st'"
    using Cons.prems by (intro Cons.IH) simp
  then show ?case using st1 by (simp add: Let_def)
qed

lemma tileChunkLoop_no_layers:
  "tileSourcesFrom idx chunks = [] \<Longrightarrow> tileChunkLoop b rs chunks idx st = Inr st"
proof (induction chunks arbitrary: idx)
  case Nil
  then show ?case by simp
next
  case (Cons c chunks)
  have none: "tileLayersOf (tmj_layers (tmj c)) = []" and rest: "tileSourcesFrom (Suc idx) chunks = []"
    using Cons.prems by simp_all
  have "\<exists>st'. tileLayerLoop b r ox oy (tmj_layers (tmj c)) st = Inr st'" for r ox oy
    by (rule tileLayerLoop_succeeds) (simp add: none)
  then obtain st' where st': "tileLayerLoop b (nth_opt rs idx) (num_sub (Fin (offsetX c)) (minX b))
                 (num_sub (Fin (offsetY c)) (minY b)) (tmj_layers (tmj c)) st = Inr st'" by blast
  obtain ml n ml' n' where s: "st = (ml, n)" "st' = (ml', n')" by (cases st, cases st') auto
  from tileLayerLoop_result[OF st'[unfolded s]] none have "st' = st" by (simp add: s)
  then show ?case using st' Cons.IH[OF rest] by (simp add: Let_def)
qed

lemma objectLoop_succeeds: "\<exists>st'. objectLoop (Some m) ox oy objs st = Inr st'"
proof (induction objs arbitrary: st)
  case Nil
  then show ?case by simp
next
  case (Cons obj objs)
  obtain d n where st: "st = (d, n)" by (cases st)
  show ?case using Cons.IH by (cases "o_gid obj") (simp_all add: st Let_def)
qed

lemma groupLayerLoop_succeeds: "\<exists>st'. groupLayerLoop (Some m) ox oy layers st = Inr st'"
proof (induction layers arbitrary: st)
  case Nil
  then show ?case by (simp del: split_paired_Ex)
next
  case (Cons l layers)
  obtain mg g ob where st: "st = (mg, g, ob)" by (metis prod_cases3)
  show ?case
  proof (cases l)
    case (ObjectGroup src)
    obtain objs ob1 where o: "objectLoop (Some m) ox oy (og_objects src) ([], ob) = Inr (objs, ob1)"
      using objectLoop_succeeds[of m ox oy "og_objects src" "([], ob)"] by auto
    show ?thesis using Cons.IH o ObjectGroup by (simp add: st)
  next
    case (TileLayer t)
    then show ?thesis using Cons.IH by (simp add: st)
  next
    case (ImageLayer im)
    then show ?thesis using Cons.IH by (simp add: st)
  next
    case (GroupLayer gb gl)
    then show ?thesis using Cons.IH by (simp add: st)
  qed
qed

lemma groupChunkLoop_succeeds:
  "idx + length chunks \<le> length rs \<Longrightarrow>
   \<exists>st'. groupChunkLoop b rs tw th chunks idx st = Inr st'"
proof (induction chunks arbitrary: idx st)
  case Nil
  then show ?case by (simp del: split_paired_Ex)
next
  case (Cons c chunks)
  have r: "nth_opt rs idx = Some (rs ! idx)" using Cons.prems by (intro nth_opt_Some) simp
  obtain st1 where st1: "groupLayerLoop (nth_opt rs idx)
      (num_mul (num_sub (Fin (offsetX c)) (minX b)) (Fin tw))
      (num_mul (num_sub (Fin (offsetY c)) (minY b)) (Fin th)) (tmj_layers (tmj c)) st = Inr st1"
    unfolding r using groupLayerLoop_succeeds by blast
  have "\<exists>st'. groupChunkLoop b rs tw th chunks (Suc idx) st1 = Inr st'"
    using Cons.prems by (intro Cons.IH) simp
  then show ?case using st1 by (simp add: Let_def)
qed

lemma mergeTmjMaps_succeeds:
  assumes ne: "chunks \<noteq> []"
    and valid: "validateLoop (tmj_tilewidth (tmj (hd chunks))) (tmj_tileheight (tmj (hd chunks)))
                  chunks = None"
    and size: "b_width (computeBounds chunks) = Fin W" "b_height (computeBounds chunks) = Fin H"
      "tileSourcesFrom 0 chunks = [] \<or> (0 \<le> W * H \<and> W * H < 2 ^ 32)"
  shows "\<exists>merged. mergeTmjMaps chunks = Inr merged \<and> tmj_width merged = W \<and> tmj_height merged = H"
proof -
  obtain c0 cs where chunks: "chunks = c0 # cs" using ne by (cases chunks) auto
  let ?b = "computeBounds chunks" and ?rs = "snd (mergeTilesets chunks)"
  have len: "length ?rs = length chunks" using mergeTilesets_spec[of chunks] by simp
  have mn: "minX ?b = Fin (Min (set (map offsetX chunks)))"
           "minY ?b = Fin (Min (set (map offsetY chunks)))"
    unfolding chunks computeBounds_Cons by simp_all
  have "\<exists>st'. tileChunkLoop ?b ?rs chunks 0 ([], 1) = Inr st'"
  proof (cases "tileSourcesFrom 0 chunks = []")
    case True
    then show ?thesis by (simp add: tileChunkLoop_no_layers)
  next
    case False
    then have "0 \<le> W * H" "W * H < 2 ^ 32" using size(3) by simp_all
    with size(1,2) mn show ?thesis
      by (intro tileChunkLoop_succeeds[where W = W and H = H]) (simp_all add: len)
  qed
  then obtain tls where tls: "mergeTileLayers chunks ?b ?rs = Inr tls"
    by (auto simp: mergeTileLayers_def)
  have "\<exists>st'. groupChunkLoop ?b ?rs (tmj_tilewidth (tmj c0)) (tmj_tileheight (tmj c0))
                 chunks 0 ([], 1, 1) = Inr st'"
    by (rule groupChunkLoop_succeeds) (simp add: len)
  then obtain ogs where ogs: "mergeObjectGroups chunks ?b ?rs
      (tmj_tilewidth (tmj c0)) (tmj_tileheight (tmj c0)) = Inr ogs"
    by (auto simp: mergeObjectGroups_def)
  have v: "validateLoop (tmj_tilewidth (tmj c0)) (tmj_tileheight (tmj c0)) (c0 # cs) = None"
    using valid by (simp add: chunks)
  have "mergeTmjMaps (c0 # cs) =
          Inr ((tmj c0)\<lparr>tmj_width := W, tmj_height := H,
                 tmj_layers := map TileLayer tls @ map ObjectGroup ogs,
                 tmj_tilesets := fst (mergeTilesets (c0 # cs))\<rparr>)"
    using v tls ogs size(1,2) unfolding chunks
    by (simp add: mergeTmjMaps_def Let_def split_beta)
  then show ?thesis unfolding chunks by simp
qed

subsection \<open>GIDs and cells of the merged tile layers\<close>


text \<open>
  Claim C4.  When the chunks pass the validation and the merged grid has a size that
  an array can have, the merge returns a document, whatever the cells hold.  Take a
  tile layer of a chunk and the merged layer made from it.  The merged layer has the
  width and height of the bounds and a grid of that size.  Every visited source cell
  whose GID is not \<open>0\<close> and whose destination lies in the grid is written, remapped,
  to its destination cell, at \<open>(offsetX - minX + localX, offsetY - minY + localY)\<close>;
  every cell of the grid that is no such destination is \<open>0\<close>.  With tile counts
  that are not negative a written GID is not \<open>0\<close>, and the number of cells of the
  merged layer that are not \<open>0\<close> is the number of source cells so written.
\<close>

theorem mergeTmjMaps_tile_cells:
  assumes k: "k < length (tileSourcesFrom 0 chunks)"
    and src: "tileSourcesFrom 0 chunks ! k = (i, c, src)"
    and valid: "validateLoop (tmj_tilewidth (tmj (hd chunks))) (tmj_tileheight (tmj (hd chunks)))
                  chunks = None"
    and size: "b_width (computeBounds chunks) = Fin W" "b_height (computeBounds chunks) = Fin H"
      "0 \<le> W * H" "W * H < 2 ^ 32"
  shows "\<exists>merged out.
           mergeTmjMaps chunks = Inr merged \<and> tileLayersOf (tmj_layers merged) ! k = out \<and>
           tl_width out = W \<and> tl_height out = H \<and> length (tl_data out) = nat (W * H) \<and>
           (\<forall>cell\<in>set (cellsOf (tl_width src) (tl_height src)).
              written src W H (gridOffsetX chunks c) (gridOffsetY chunks c) cell \<longrightarrow>
              tl_data out ! destCell W (gridOffsetX chunks c) (gridOffsetY chunks c) cell =
                remapGid (snd (mergeTilesets chunks) ! i) (srcGid src cell)) \<and>
           (\<forall>p<nat (W * H).
              (\<forall>cell\<in>set (cellsOf (tl_width src) (tl_height src)).
                 written src W H (gridOffsetX chunks c) (gridOffsetY chunks c) cell \<longrightarrow>
                 destCell W (gridOffsetX chunks c) (gridOffsetY chunks c) cell \<noteq> p) \<longrightarrow>
              tl_data out ! p = 0) \<and>
           ((\<forall>ts\<in>set (allTilesets chunks). 0 \<le> tileCountOf ts) \<longrightarrow>
              (\<forall>cell\<in>set (cellsOf (tl_width src) (tl_height src)).
                 written src W H (gridOffsetX chunks c) (gridOffsetY chunks c) cell \<longrightarrow>
                 tl_data out ! destCell W (gridOffsetX chunks c) (gridOffsetY chunks c) cell \<noteq> 0) \<and>
              nonzeroCells (tl_data out) =
                length (filter (written src W H (gridOffsetX chunks c) (gridOffsetY chunks c))
                          (cellsOf (tl_width src) (tl_height src))))"
proof -
  let ?ox = "gridOffsetX chunks c" and ?oy = "gridOffsetY chunks c"
  let ?m = "snd (mergeTilesets chunks) ! i"
  let ?cells = "cellsOf (tl_width src) (tl_height src)"
  let ?zeros = "replicate (nat (W * H)) (0::int)"
  let ?data = "foldl (writeCell src ?m W H ?ox ?oy) ?zeros ?cells"
  have ne: "chunks \<noteq> []" using k by auto
  from mergeTmjMaps_succeeds[OF ne valid size(1,2)] size(3,4) obtain merged where
    run: "mergeTmjMaps chunks = Inr merged" and W: "tmj_width merged = W" and H: "tmj_height merged = H"
    by blast
  note M = merged_tile_layer[OF run k src, unfolded W H]
  have i: "i < length chunks" using M by simp
  define out where "out = tileLayersOf (tmj_layers merged) ! k"
  have out: "tl_width out = W" "tl_height out = H" "tl_data out = ?data"
    using M by (simp_all add: out_def)
  have len: "length (tl_data out) = nat (W * H)" by (simp add: out(3))
  have hit: "tl_data out ! destCell W ?ox ?oy cell = remapGid ?m (srcGid src cell)"
    if "cell \<in> set ?cells" "written src W H ?ox ?oy cell" for cell
    unfolding out(3) using distinct_cellsOf that by (rule foldl_writeCell_hit) simp
  have miss: "tl_data out ! p = 0"
    if "p < nat (W * H)"
       "\<forall>cell\<in>set ?cells. written src W H ?ox ?oy cell \<longrightarrow> destCell W ?ox ?oy cell \<noteq> p" for p
  proof -
    have "tl_data out ! p = ?zeros ! p" unfolding out(3) using that(2) by (rule foldl_writeCell_miss)
    then show ?thesis using that(1) by simp
  qed
  have nz: "remapGid ?m (srcGid src cell) \<noteq> 0"
    if "\<forall>ts\<in>set (allTilesets chunks). 0 \<le> tileCountOf ts" "written src W H ?ox ?oy cell" for cell
    using that(1) i by (rule merged_remap_nonzero) (use that(2) in \<open>simp add: written_def\<close>)
  have count: "nonzeroCells (tl_data out) = length (filter (written src W H ?ox ?oy) ?cells)"
    if nonneg: "\<forall>ts\<in>set (allTilesets chunks). 0 \<le> tileCountOf ts"
  proof -
    have pre: "\<forall>cell\<in>set ?cells. written src W H ?ox ?oy cell \<longrightarrow>
                 ?zeros ! destCell W ?ox ?oy cell = 0 \<and> remapGid ?m (srcGid src cell) \<noteq> 0"
    proof (intro ballI impI)
      fix cell assume w: "written src W H ?ox ?oy cell"
      then have "destCell W ?ox ?oy cell < nat (W * H)"
        by (intro destCell_less) (simp add: written_def)
      then show "?zeros ! destCell W ?ox ?oy cell = 0 \<and> remapGid ?m (srcGid src cell) \<noteq> 0"
        using nz[OF nonneg w] by simp
    qed
    have "nonzeroCells ?data = nonzeroCells ?zeros + length (filter (written src W H ?ox ?oy) ?cells)"
      using distinct_cellsOf _ pre by (rule nonzeroCells_foldl_writeCell) simp
    then show ?thesis by (simp add: out(3) nonzeroCells_def)
  qed
  have "mergeTmjMaps chunks = Inr merged \<and> tileLayersOf (tmj_layers merged) ! k = out \<and>
           tl_width out = W \<and> tl_height out = H \<and> length (tl_data out) = nat (W * H) \<and>
           (\<forall>cell\<in>set ?cells. written src W H ?ox ?oy cell \<longrightarrow>
              tl_data out ! destCell W ?ox ?oy cell = remapGid ?m (srcGid src cell)) \<and>
           (\<forall>p<nat (W * H).
              (\<forall>cell\<in>set ?cells. written src W H ?ox ?oy cell \<longrightarrow> destCell W ?ox ?oy cell \<noteq> p) \<longrightarrow>
              tl_data out ! p = 0) \<and>
           ((\<forall>ts\<in>set (allTilesets chunks). 0 \<le> tileCountOf ts) \<longrightarrow>
              (\<forall>cell\<in>set ?cells. written src W H ?ox ?oy cell \<longrightarrow>
                 tl_data out ! destCell W ?ox ?oy cell \<noteq> 0) \<and>
              nonzeroCells (tl_data out) = length (filter (written src W H ?ox ?oy) ?cells))"
    using run out(1,2) len hit miss nz count by (simp add: out_def[symmetric])
  then show ?thesis by blast
qed

subsection \<open>The theorems on tile layers at the example maps\<close>

lemma ex_sources_AB:
  "tileSourcesFrom 0 [chunkA, chunkB] = [(0, chunkA, exTiles), (1, chunkB, exTiles)]"
  by (simp add: chunkA_def chunkB_def exDoc_def)


text \<open>
  The theorem of C4 at the two chunks side by side, for the tile layer of the second:
  three of its four cells hold a tile, and three cells of the merged layer do.
\<close>

theorem mergeTmjMaps_tile_cells_witness:
  "nonzeroCells (tl_data (tileLayersOf (tmj_layers (projr (mergeTmjMaps [chunkA, chunkB]))) ! 1)) = 3"
proof -
  let ?cs = "[chunkA, chunkB]"
  have k: "1 < length (tileSourcesFrom 0 ?cs)" unfolding ex_sources_AB by simp
  have src: "tileSourcesFrom 0 ?cs ! 1 = (1, chunkB, exTiles)" unfolding ex_sources_AB by simp
  have valid: "validateLoop (tmj_tilewidth (tmj (hd ?cs))) (tmj_tileheight (tmj (hd ?cs))) ?cs = None"
    by (simp add: chunkA_def chunkB_def exDoc_def)
  have bw: "b_width (computeBounds ?cs) = Fin 4" and bh: "b_height (computeBounds ?cs) = Fin 2"
    by code_simp+
  have nonneg: "\<forall>ts\<in>set (allTilesets ?cs). 0 \<le> tileCountOf ts"
    by (simp add: allTilesets_def chunkA_def chunkB_def exDoc_def exTileset_def tileCountOf_def)
  have cnt: "length (filter (written exTiles 4 2 (gridOffsetX ?cs chunkB) (gridOffsetY ?cs chunkB))
                       (cellsOf (tl_width exTiles) (tl_height exTiles))) = 3"
    by code_simp
  from mergeTmjMaps_tile_cells[OF k src valid bw bh] nonneg obtain merged out where
    run: "mergeTmjMaps ?cs = Inr merged" and out: "tileLayersOf (tmj_layers merged) ! 1 = out"
    and count: "nonzeroCells (tl_data out) =
                  length (filter (written exTiles 4 2 (gridOffsetX ?cs chunkB) (gridOffsetY ?cs chunkB))
                            (cellsOf (tl_width exTiles) (tl_height exTiles)))"
    by auto
  have "projr (mergeTmjMaps ?cs) = merged" by (simp add: run)
  then show ?thesis using out count cnt by simp
qed


end
